theory Spec2Isabelle
  imports Complex_Main "HOL-Library.Sublist" "HOL-Library.Word"
begin

section \<open>JavaScript strings\<close>

text \<open>
  A JavaScript string is modelled as a HOL \<open>string\<close>: one \<open>char\<close> per UTF-16 code unit,
  for text whose code units are all below 256 (Latin-1). On that range \<open>toLowerCase\<close> works
  unit by unit and never changes the length, and the class \<open>\s\<close> of a regular expression
  (which is also what \<open>trim\<close> removes) is tab, line feed, vertical tab, form feed, carriage
  return, space and the no-break space. Where the places of characters matter beyond
  Latin-1, for the anchor of a snippet, the text is a list of 16-bit code units; the
  functions that look at no particular character are written for lists of either kind.
\<close>

definition is_space :: "char \<Rightarrow> bool" where
  "is_space c = (c \<in> {CHR 0x09, CHR 0x0A, CHR 0x0B, CHR 0x0C, CHR 0x0D, CHR '' '', CHR 0xA0})"

definition upper_chars :: string where
  "upper_chars = ''ABCDEFGHIJKLMNOPQRSTUVWXYZ'' @
     [CHR 0xC0, CHR 0xC1, CHR 0xC2, CHR 0xC3, CHR 0xC4, CHR 0xC5, CHR 0xC6, CHR 0xC7,
      CHR 0xC8, CHR 0xC9, CHR 0xCA, CHR 0xCB, CHR 0xCC, CHR 0xCD, CHR 0xCE, CHR 0xCF,
      CHR 0xD0, CHR 0xD1, CHR 0xD2, CHR 0xD3, CHR 0xD4, CHR 0xD5, CHR 0xD6,
      CHR 0xD8, CHR 0xD9, CHR 0xDA, CHR 0xDB, CHR 0xDC, CHR 0xDD, CHR 0xDE]"

definition lower_chars :: string where
  "lower_chars = ''abcdefghijklmnopqrstuvwxyz'' @
     [CHR 0xE0, CHR 0xE1, CHR 0xE2, CHR 0xE3, CHR 0xE4, CHR 0xE5, CHR 0xE6, CHR 0xE7,
      CHR 0xE8, CHR 0xE9, CHR 0xEA, CHR 0xEB, CHR 0xEC, CHR 0xED, CHR 0xEE, CHR 0xEF,
      CHR 0xF0, CHR 0xF1, CHR 0xF2, CHR 0xF3, CHR 0xF4, CHR 0xF5, CHR 0xF6,
      CHR 0xF8, CHR 0xF9, CHR 0xFA, CHR 0xFB, CHR 0xFC, CHR 0xFD, CHR 0xFE]"

definition to_lower_char :: "char \<Rightarrow> char" where
  "to_lower_char c = (case map_of (zip upper_chars lower_chars) c of Some d \<Rightarrow> d | None \<Rightarrow> c)"

definition toLowerCase :: "string \<Rightarrow> string" where
  "toLowerCase s = map to_lower_char s"

text \<open>\<open>s.trim()\<close>\<close>

definition trim :: "string \<Rightarrow> string" where
  "trim s = rev (dropWhile is_space (rev (dropWhile is_space s)))"

text \<open>\<open>s.startsWith(p)\<close> is \<^const>\<open>prefix\<close>; \<open>s.indexOf(t)\<close> gives the first offset at which
  \<open>t\<close> occurs, \<open>None\<close> standing for \<open>-1\<close>; \<open>s.includes(t)\<close> says whether there is one.\<close>

fun indexOf :: "'a list \<Rightarrow> 'a list \<Rightarrow> nat option" where
  "indexOf [] t = (if t = [] then Some 0 else None)"
| "indexOf (c # cs) t =
     (if prefix t (c # cs) then Some 0 else map_option Suc (indexOf cs t))"

definition includes_str :: "'a list \<Rightarrow> 'a list \<Rightarrow> bool" where
  "includes_str s t = (indexOf s t \<noteq> None)"

text \<open>A number inside a template literal is printed in decimal.\<close>

fun show_nat :: "nat \<Rightarrow> string" where
  "show_nat n =
     (if n < 10 then [''0123456789'' ! n]
      else show_nat (n div 10) @ [''0123456789'' ! (n mod 10)])"

declare show_nat.simps [simp del]

section \<open>The environment and the network\<close>

text \<open>
  \<open>process.env\<close> holds the two variables the code reads; a variable that is not set is
  \<open>None\<close>. JavaScript treats the empty string as false, so a variable counts as
  configured when it is set and not empty.
\<close>

record env =
  PINATA_GATEWAY_URL :: "string option"
  HUGGINGFACE_API_KEY :: "string option"

definition truthy :: "string option \<Rightarrow> bool" where
  "truthy v = (case v of None \<Rightarrow> False | Some s \<Rightarrow> s \<noteq> [])"

text \<open>
  A thrown value is an \<open>Error\<close> object with its message, or some other value, kept as what
  \<open>String(value)\<close> prints. \<open>message_of\<close> is the expression
  \<open>error instanceof Error ? error.message : String(error)\<close>.
\<close>

datatype thrown = Error string | Thrown string

definition message_of :: "thrown \<Rightarrow> string" where
  "message_of e = (case e of Error m \<Rightarrow> m | Thrown s \<Rightarrow> s)"

text \<open>
  JSON values, as \<open>response.json()\<close> returns them. Numbers are reals: rounding and the
  special floating-point values play no part in what is verified here.
\<close>

datatype json =
    JNull
  | JBool bool
  | JNum real
  | JStr string
  | JArr "json list"
  | JObj "(string \<times> json) list"

text \<open>
  A response carries its status line and what reading its body gives: \<open>response.text()\<close>
  and \<open>response.json()\<close> either return or throw. \<open>response.ok\<close> is true for the statuses
  200 to 299.
\<close>

record response =
  status :: nat
  statusText :: string
  body_text :: "thrown + string"
  body_json :: "thrown + json"

definition ok :: "response \<Rightarrow> bool" where
  "ok r = (200 \<le> status r \<and> status r \<le> 299)"

datatype fetch_outcome = Throws thrown | Responds response

text \<open>
  The network is an oracle: what the \<open>n\<close>-th request of a run gets when it asks for a URL
  with a request body (empty for a GET). The same URL may answer differently when asked
  again. The state threaded through the code is the list of the URLs requested so far.
\<close>

type_synonym network = "nat \<Rightarrow> string \<Rightarrow> string \<Rightarrow> fetch_outcome"

definition fetch :: "network \<Rightarrow> string \<Rightarrow> string \<Rightarrow> string list \<Rightarrow> fetch_outcome \<times> string list" where
  "fetch net url body reqs = (net (length reqs) url body, reqs @ [url])"

section \<open>The content gateway client\<close>

text \<open>\<open>getIPFSGatewayUrl\<close> and \<open>fetchContentFromIPFS\<close> as the Hugging Face versions of
  \<open>embeddings.ts\<close> and \<open>semanticSearch.ts\<close> have them, with the public gateway as fallback.\<close>

definition getIPFSGatewayUrl :: "env \<Rightarrow> string" where
  "getIPFSGatewayUrl e =
     (if truthy (PINATA_GATEWAY_URL e) then
        (let customGateway = the (PINATA_GATEWAY_URL e) in
         if prefix ''http://'' customGateway \<or> prefix ''https://'' customGateway
         then customGateway
         else ''https://'' @ customGateway)
      else ''https://gateway.pinata.cloud'')"

definition publicGatewayBase :: string where
  "publicGatewayBase = ''https://gateway.pinata.cloud''"

definition failed_status :: "response \<Rightarrow> thrown" where
  "failed_status r =
     Error (''Failed to fetch content from IPFS: '' @ show_nat (status r) @ '' '' @ statusText r)"

definition rethrow :: "thrown \<Rightarrow> thrown" where
  "rethrow e = Error (''Failed to fetch content from IPFS: '' @ message_of e)"

text \<open>The request to the public gateway with its status check, as it is written twice in
  \<open>fetchContentFromIPFS\<close>: \<open>Inl\<close> is what the block throws.\<close>

definition fetch_fallback :: "network \<Rightarrow> string \<Rightarrow> string list \<Rightarrow> (thrown + string) \<times> string list" where
  "fetch_fallback net publicGatewayUrl reqs =
     (case fetch net publicGatewayUrl [] reqs of
        (Throws e, reqs') \<Rightarrow> (Inl e, reqs')
      | (Responds fallbackResponse, reqs') \<Rightarrow>
          if \<not> ok fallbackResponse then (Inl (failed_status fallbackResponse), reqs')
          else (body_text fallbackResponse, reqs'))"

text \<open>The body of the outer \<open>try\<close>: everything it throws reaches the \<open>catch\<close> below.\<close>

definition try_gateway :: "network \<Rightarrow> string \<Rightarrow> string \<Rightarrow> string list \<Rightarrow> (thrown + string) \<times> string list" where
  "try_gateway net gatewayUrl publicGatewayUrl reqs =
     (case fetch net gatewayUrl [] reqs of
        (Throws e, reqs') \<Rightarrow> (Inl e, reqs')
      | (Responds response, reqs') \<Rightarrow>
          if \<not> ok response then
            (if status response = 403 \<or> status response = 401 \<or> status response = 429
             then fetch_fallback net publicGatewayUrl reqs'
             else (Inl (failed_status response), reqs'))
          else (body_text response, reqs'))"

definition fetchContentFromIPFS :: "env \<Rightarrow> network \<Rightarrow> string \<Rightarrow> string list \<Rightarrow> (thrown + string) \<times> string list" where
  "fetchContentFromIPFS e net cid reqs =
     (if cid = [] then (Inl (Error ''CID is required to fetch content from IPFS''), reqs)
      else
        let gatewayBase = getIPFSGatewayUrl e;
            gatewayUrl = gatewayBase @ ''/ipfs/'' @ cid;
            publicGatewayUrl = publicGatewayBase @ ''/ipfs/'' @ cid
        in case try_gateway net gatewayUrl publicGatewayUrl reqs of
             (Inr content, reqs') \<Rightarrow> (Inr content, reqs')
           | (Inl error, reqs') \<Rightarrow>
               if gatewayBase \<noteq> publicGatewayBase then
                 (case fetch_fallback net publicGatewayUrl reqs' of
                    (Inr content, reqs'') \<Rightarrow> (Inr content, reqs'')
                  | (Inl fallbackError, reqs'') \<Rightarrow> (Inl (rethrow error), reqs''))
               else (Inl (rethrow error), reqs'))"

text \<open>What the primary attempt of a call gives, taken alone: the first request and the read
  of its body. \<open>primary_failure\<close> is the error of a failed primary attempt.\<close>

definition primary_failure :: "network \<Rightarrow> string \<Rightarrow> thrown option" where
  "primary_failure net gatewayUrl =
     (case net 0 gatewayUrl [] of
        Throws e \<Rightarrow> Some e
      | Responds r \<Rightarrow>
          if \<not> ok r then Some (failed_status r)
          else (case body_text r of Inl e \<Rightarrow> Some e | Inr content \<Rightarrow> None))"

definition auth_status :: "network \<Rightarrow> string \<Rightarrow> bool" where
  "auth_status net gatewayUrl =
     (case net 0 gatewayUrl [] of
        Throws e \<Rightarrow> False
      | Responds r \<Rightarrow> status r = 403 \<or> status r = 401 \<or> status r = 429)"

definition primary_threw :: "network \<Rightarrow> string \<Rightarrow> bool" where
  "primary_threw net gatewayUrl =
     (case net 0 gatewayUrl [] of Throws e \<Rightarrow> True | Responds r \<Rightarrow> False)"

text \<open>
  The fallback policy in the specification's words, for one call that starts with no request
  made: the fallback endpoint is requested at most once; only after the primary attempt
  threw or answered 401, 403 or 429, and only when the two endpoints differ; with identical
  endpoints there is the single request.
\<close>

definition spec_fallback_policy :: "env \<Rightarrow> network \<Rightarrow> string \<Rightarrow> bool" where
  "spec_fallback_policy e net cid =
     (let gatewayUrl = getIPFSGatewayUrl e @ ''/ipfs/'' @ cid;
          reqs = snd (fetchContentFromIPFS e net cid [])
      in length reqs \<le> 2
         \<and> (length reqs = 2 \<longrightarrow>
              (primary_threw net gatewayUrl \<or> auth_status net gatewayUrl)
              \<and> getIPFSGatewayUrl e \<noteq> publicGatewayBase)
         \<and> (getIPFSGatewayUrl e = publicGatewayBase \<longrightarrow> length reqs = 1))"

text \<open>Concrete environments and networks.\<close>

definition custom_env :: env where
  "custom_env = \<lparr>PINATA_GATEWAY_URL = Some ''my.mypinata.cloud'', HUGGINGFACE_API_KEY = None\<rparr>"

definition default_env :: env where
  "default_env = \<lparr>PINATA_GATEWAY_URL = None, HUGGINGFACE_API_KEY = None\<rparr>"

definition http_error :: "nat \<Rightarrow> string \<Rightarrow> fetch_outcome" where
  "http_error code reason =
     Responds \<lparr>status = code, statusText = reason,
               body_text = Inr [], body_json = Inl (Error ''Unexpected end of JSON input'')\<rparr>"

definition http_ok :: "string \<Rightarrow> fetch_outcome" where
  "http_ok content =
     Responds \<lparr>status = 200, statusText = ''OK'',
               body_text = Inr content, body_json = Inl (Error ''Unexpected token'')\<rparr>"

definition net_500_then_ok :: network where
  "net_500_then_ok n url body =
     (if url = ''https://my.mypinata.cloud/ipfs/Qm'' then http_error 500 ''Internal Server Error''
      else http_ok ''hello'')"

definition net_403_then_500 :: network where
  "net_403_then_500 n url body =
     (if url = ''https://my.mypinata.cloud/ipfs/Qm'' then http_error 403 ''Forbidden''
      else http_error 500 ''Internal Server Error'')"

definition net_always_500 :: network where
  "net_always_500 n url body = http_error 500 ''Internal Server Error''"

section \<open>Regular-expression replacement\<close>

text \<open>
  \<open>s.replace(/re/g, r)\<close> scans \<open>s\<close> from the left: where the expression matches, the match is
  replaced and the scan goes on after it; elsewhere one character is kept and the scan moves
  one place on. None of the expressions below has an anchor or a look-around, so whether one
  matches at a place depends on the text from that place on only: a matcher takes that text
  and gives the length of the match and its replacement. None of them matches the empty
  string.
\<close>

fun replace_all :: "('a list \<Rightarrow> (nat \<times> 'a list) option) \<Rightarrow> 'a list \<Rightarrow> 'a list" where
  "replace_all m [] = []"
| "replace_all m (c # cs) =
     (case m (c # cs) of
        Some (n, r) \<Rightarrow> r @ replace_all m (drop (n - 1) cs)
      | None \<Rightarrow> c # replace_all m cs)"

text \<open>\<open>/#{1,6}\s/\<close>: the run of \<open>#\<close> at this place is one to six long and a whitespace
  character follows it (after fewer \<open>#\<close> than the whole run comes a \<open>#\<close>, not whitespace).\<close>

definition match_header :: "string \<Rightarrow> (nat \<times> string) option" where
  "match_header s =
     (let k = length (takeWhile (\<lambda>c. c = CHR ''#'') s) in
      if 1 \<le> k \<and> k \<le> 6 \<and> k < length s \<and> is_space (s ! k) then Some (k + 1, []) else None)"

text \<open>\<open>/\*\*([^*]+)\*\*/\<close>, \<open>/\*([^*]+)\*/\<close> and the same with a backquote: the delimiter \<open>d\<close>, a
  non-empty run of characters other than \<open>x\<close> that ends where the delimiter stands again.
  The replacement \<open>$1\<close> is the run.\<close>

definition match_wrapped :: "'a list \<Rightarrow> 'a \<Rightarrow> 'a list \<Rightarrow> (nat \<times> 'a list) option" where
  "match_wrapped d x s =
     (if prefix d s then
        (let inner = takeWhile (\<lambda>c. c \<noteq> x) (drop (length d) s);
             after = drop (length d + length inner) s
         in if inner \<noteq> [] \<and> prefix d after
            then Some (length d + length inner + length d, inner) else None)
      else None)"

text \<open>\<open>/```[\s\S]*?```/\<close>: three backquotes, and the nearest three backquotes after them.\<close>

definition match_code_block :: "string \<Rightarrow> (nat \<times> string) option" where
  "match_code_block s =
     (if prefix ''```'' s then
        (case indexOf (drop 3 s) ''```'' of
           Some i \<Rightarrow> Some (3 + i + 3, [])
         | None \<Rightarrow> None)
      else None)"

text \<open>The common part of a link and an image, from the opening bracket on: the label, a run
  of characters other than \<open>]\<close> (which may be empty for an image only), then \<open>](\<close>, a
  non-empty run of characters other than \<open>)\<close>, and \<open>)\<close>. The result is the length of the
  match and the label.\<close>

definition match_bracketed :: "bool \<Rightarrow> string \<Rightarrow> (nat \<times> string) option" where
  "match_bracketed empty_label s =
     (if prefix ''['' s then
        (let label = takeWhile (\<lambda>c. c \<noteq> CHR '']'') (drop 1 s);
             after = drop (1 + length label) s
         in if (label \<noteq> [] \<or> empty_label) \<and> prefix '']('' after then
              (let target = takeWhile (\<lambda>c. c \<noteq> CHR '')'') (drop 2 after);
                   rest = drop (2 + length target) after
               in if target \<noteq> [] \<and> prefix '')'' rest
                  then Some (1 + length label + 2 + length target + 1, label) else None)
            else None)
      else None)"

text \<open>\<open>/\[([^\]]+)\]\([^)]+\)/\<close> with replacement \<open>$1\<close>.\<close>

definition match_link :: "string \<Rightarrow> (nat \<times> string) option" where
  "match_link s = match_bracketed False s"

text \<open>\<open>/!\[([^\]]*)\]\([^)]+\)/\<close> with the empty replacement.\<close>

definition match_image :: "string \<Rightarrow> (nat \<times> string) option" where
  "match_image s =
     (if prefix ''!'' s then
        (case match_bracketed True (drop 1 s) of
           Some (n, label) \<Rightarrow> Some (1 + n, [])
         | None \<Rightarrow> None)
      else None)"

text \<open>\<open>/\n+/\<close>, \<open>/\s+/\<close> and \<open>/-+/\<close>: a non-empty run of characters of one class, replaced by
  \<open>r\<close>.\<close>

definition match_run :: "('a \<Rightarrow> bool) \<Rightarrow> 'a list \<Rightarrow> 'a list \<Rightarrow> (nat \<times> 'a list) option" where
  "match_run P r s =
     (let k = length (takeWhile P s) in if 1 \<le> k then Some (k, r) else None)"

section \<open>Snippets and anchors\<close>

text \<open>The chain of replacements of \<open>createSnippet\<close>, in both files, in the order it is
  written.\<close>

definition strip_markdown :: "string \<Rightarrow> string" where
  "strip_markdown content =
     trim
      (replace_all (match_run is_space '' '')
      (replace_all (match_run (\<lambda>c. c = CHR 0x0A) '' '')
      (replace_all match_image
      (replace_all match_link
      (replace_all match_code_block
      (replace_all (match_wrapped ''`'' (CHR ''`''))
      (replace_all (match_wrapped ''*'' (CHR ''*''))
      (replace_all (match_wrapped ''**'' (CHR ''*''))
      (replace_all match_header content)))))))))"

text \<open>\<open>s.slice(a, b)\<close> for integers: a negative index counts from the end.\<close>

definition slice :: "'a list \<Rightarrow> int \<Rightarrow> int \<Rightarrow> 'a list" where
  "slice s a b =
     (let n = int (length s);
          from = (if a < 0 then max (n + a) 0 else min a n);
          to = (if b < 0 then max (n + b) 0 else min b n)
      in take (nat (to - from)) (drop (nat from) s))"

text \<open>\<open>generateSlug\<close> of \<open>search.ts\<close>.\<close>

definition slug_char :: "char \<Rightarrow> bool" where
  "slug_char c =
     (c \<in> set ''abcdefghijklmnopqrstuvwxyz'' \<or> c \<in> set ''0123456789'' \<or> is_space c \<or> c = CHR ''-'')"

definition generateSlug :: "string \<Rightarrow> string" where
  "generateSlug text' =
     trim
      (replace_all (match_run (\<lambda>c. c = CHR ''-'') ''-'')
      (replace_all (match_run is_space ''-'')
      (filter slug_char (toLowerCase text'))))"

text \<open>\<open>content.split("\n")\<close>, and splitting at any other character: there is always at least
  one piece.\<close>

fun split_on :: "'a \<Rightarrow> 'a list \<Rightarrow> 'a list list" where
  "split_on d [] = [[]]"
| "split_on d (c # cs) =
     (if c = d then [] # split_on d cs
      else (case split_on d cs of
              l # ls \<Rightarrow> (c # l) # ls
            | [] \<Rightarrow> [[c]]))"

text \<open>
  \<open>line.match(/^(#{1,6})\s+(.+)$/)\<close> on a line without line feed; the result is the second
  group. The run of \<open>#\<close> is one to six long and whitespace follows it. \<open>.\<close> matches no line
  terminator (a carriage return is one, and is whitespace too), and the group reaches the
  end of the line. When something other than whitespace follows the whitespace, the group
  is the rest of the line, which must be free of terminators. When the line ends with the
  whitespace, the expression gives back its last character to the group, which is possible
  when there are two at least and the last is no terminator.
\<close>

definition line_terminator :: "char \<Rightarrow> bool" where
  "line_terminator c = (c = CHR 0x0A \<or> c = CHR 0x0D)"

definition heading_match :: "string \<Rightarrow> string option" where
  "heading_match line =
     (let k = length (takeWhile (\<lambda>c. c = CHR ''#'') line);
          tail = drop k line;
          ws = takeWhile is_space tail;
          rest = dropWhile is_space tail
      in if 1 \<le> k \<and> k \<le> 6 \<and> ws \<noteq> [] then
           (if rest \<noteq> [] then
              (if list_ex line_terminator rest then None else Some rest)
            else if 2 \<le> length ws \<and> \<not> line_terminator (last ws) then Some [last ws]
            else None)
         else None)"

record heading =
  heading_text :: string
  position :: nat
  heading_id :: string

text \<open>The first loop of \<open>findNearestHeading\<close>, with the running offset \<open>currentPosition\<close>.\<close>

fun collect_headings :: "string list \<Rightarrow> nat \<Rightarrow> heading list" where
  "collect_headings [] currentPosition = []"
| "collect_headings (line # lines) currentPosition =
     (case heading_match line of
        Some g \<Rightarrow>
          \<lparr>heading_text = trim g, position = currentPosition, heading_id = generateSlug (trim g)\<rparr>
            # collect_headings lines (currentPosition + length line + 1)
      | None \<Rightarrow> collect_headings lines (currentPosition + length line + 1))"

text \<open>The second loop, which stops at the first heading after the match.\<close>

fun nearest_heading :: "heading list \<Rightarrow> nat \<Rightarrow> heading option \<Rightarrow> heading option" where
  "nearest_heading [] matchPosition nearestHeading = nearestHeading"
| "nearest_heading (h # hs) matchPosition nearestHeading =
     (if position h \<le> matchPosition then nearest_heading hs matchPosition (Some h)
      else nearestHeading)"

definition headings_of :: "string \<Rightarrow> heading list" where
  "headings_of content = collect_headings (split_on (CHR 0x0A) content) 0"

text \<open>\<open>nearestHeading?.id || null\<close>: an empty id counts as none.\<close>

definition findNearestHeading :: "string \<Rightarrow> nat \<Rightarrow> string option" where
  "findNearestHeading content matchPosition =
     (case nearest_heading (headings_of content) matchPosition None of
        None \<Rightarrow> None
      | Some h \<Rightarrow> if heading_id h = [] then None else Some (heading_id h))"

record snippet_result =
  snippet :: string
  anchor :: "string option"

text \<open>\<open>createSnippet\<close> of \<open>search.ts\<close>.\<close>

definition createSnippet :: "string \<Rightarrow> string \<Rightarrow> int \<Rightarrow> snippet_result" where
  "createSnippet content searchTerm maxLength =
     (let lowerSearchTerm = toLowerCase searchTerm;
          originalIndex = indexOf (toLowerCase content) lowerSearchTerm;
          anchor' = (case originalIndex of
                       Some i \<Rightarrow> findNearestHeading content i
                     | None \<Rightarrow> None);
          cleanContent = strip_markdown content;
          lowerContent = toLowerCase cleanContent
      in case indexOf lowerContent lowerSearchTerm of
           None \<Rightarrow>
             \<lparr>snippet = slice cleanContent 0 maxLength @
                         (if maxLength < int (length cleanContent) then ''...'' else []),
              anchor = None\<rparr>
         | Some index \<Rightarrow>
             (let start = max 0 (int index - maxLength div 3);
                  stop = min (int (length cleanContent)) (start + maxLength);
                  snippet1 = slice cleanContent start stop;
                  snippet2 = (if 0 < start then ''...'' @ snippet1 else snippet1);
                  snippet3 = (if stop < int (length cleanContent) then snippet2 @ ''...''
                              else snippet2)
              in \<lparr>snippet = snippet3, anchor = anchor'\<rparr>))"

text \<open>\<open>createSnippet\<close> of \<open>semanticSearch.ts\<close>, without a search term.\<close>

definition createSnippet_lead :: "string \<Rightarrow> int \<Rightarrow> string" where
  "createSnippet_lead content maxLength =
     (let cleanContent = strip_markdown content
      in if int (length cleanContent) \<le> maxLength then cleanContent
         else slice cleanContent 0 maxLength @ ''...'')"

text \<open>
  The expressions of the markdown passes of \<open>createSnippet\<close>, in the order of the passes:
  header, bold, italic, inline code, fenced block, link and image. An expression has a
  match in a text when it matches at the start of one of its suffixes, and a text has
  markdown left when one of the seven has a match in it.
\<close>

definition markdown_patterns :: "(string \<Rightarrow> (nat \<times> string) option) list" where
  "markdown_patterns =
     [match_header, match_wrapped ''**'' (CHR ''*''), match_wrapped ''*'' (CHR ''*''),
      match_wrapped ''`'' (CHR ''`''), match_code_block, match_link, match_image]"

definition matches_in :: "(string \<Rightarrow> (nat \<times> string) option) \<Rightarrow> string \<Rightarrow> bool" where
  "matches_in m s = list_ex (\<lambda>t. m t \<noteq> None) (suffixes s)"

definition has_markdown :: "string \<Rightarrow> bool" where
  "has_markdown s = list_ex (\<lambda>m. matches_in m s) markdown_patterns"

text \<open>A text whose whitespace is single blanks, none next to another.\<close>

fun single_spaced :: "string \<Rightarrow> bool" where
  "single_spaced [] = True"
| "single_spaced (c # cs) =
     (if is_space c then c = CHR '' '' \<and> (cs = [] \<or> \<not> is_space (hd cs)) \<and> single_spaced cs
      else single_spaced cs)"

section \<open>Snippets and anchors in text of any characters\<close>

text \<open>
  The functions of \<open>createSnippet\<close> once more, for every JavaScript string. A string is the
  list of its UTF-16 code units, words of 16 bits; lengths and offsets count code units,
  and a regular expression without the flag \<open>u\<close> works on code units. The whitespace of
  \<open>\s\<close> and of \<open>trim\<close> is then tab, line feed, vertical tab, form feed, carriage return,
  space, no-break space, U+1680, U+2000 to U+200A, U+2028, U+2029, U+202F, U+205F, U+3000
  and U+FEFF; the line terminators, which \<open>.\<close> does not match, are line feed, carriage
  return, U+2028 and U+2029. \<open>toLowerCase\<close> follows the Unicode tables of the engine, which
  are not part of the code, and can change the length of a text (U+0130 becomes the two
  units U+0069 U+0307): it is the parameter \<open>lower\<close> of the functions that call it. The
  functions that look at no particular character (\<open>indexOf\<close>, \<open>replace_all\<close>, \<open>slice\<close>,
  \<open>split_on\<close>, \<open>match_wrapped\<close>, \<open>match_run\<close>) are those of the sections before.
\<close>

type_synonym ustring = "16 word list"

text \<open>The code units of a literal of the source.\<close>

definition utf16 :: "string \<Rightarrow> ustring" where
  "utf16 s = map of_char s"

definition is_space16 :: "16 word \<Rightarrow> bool" where
  "is_space16 c =
     (c \<in> {0x09, 0x0A, 0x0B, 0x0C, 0x0D, 0x20, 0xA0, 0x1680, 0x2028, 0x2029, 0x202F, 0x205F,
            0x3000, 0xFEFF}
      \<or> (0x2000 \<le> c \<and> c \<le> 0x200A))"

definition trim16 :: "ustring \<Rightarrow> ustring" where
  "trim16 s = rev (dropWhile is_space16 (rev (dropWhile is_space16 s)))"

text \<open>\<open>/#{1,6}\s/\<close>\<close>

definition match_header16 :: "ustring \<Rightarrow> (nat \<times> ustring) option" where
  "match_header16 s =
     (let k = length (takeWhile (\<lambda>c. c = of_char (CHR ''#'')) s) in
      if 1 \<le> k \<and> k \<le> 6 \<and> k < length s \<and> is_space16 (s ! k) then Some (k + 1, []) else None)"

text \<open>\<open>/```[\s\S]*?```/\<close>\<close>

definition match_code_block16 :: "ustring \<Rightarrow> (nat \<times> ustring) option" where
  "match_code_block16 s =
     (if prefix (utf16 ''```'') s then
        (case indexOf (drop 3 s) (utf16 ''```'') of
           Some i \<Rightarrow> Some (3 + i + 3, [])
         | None \<Rightarrow> None)
      else None)"

text \<open>The common part of a link and an image, from the opening bracket on.\<close>

definition match_bracketed16 :: "bool \<Rightarrow> ustring \<Rightarrow> (nat \<times> ustring) option" where
  "match_bracketed16 empty_label s =
     (if prefix (utf16 ''['') s then
        (let label = takeWhile (\<lambda>c. c \<noteq> of_char (CHR '']'')) (drop 1 s);
             after = drop (1 + length label) s
         in if (label \<noteq> [] \<or> empty_label) \<and> prefix (utf16 '']('') after then
              (let target = takeWhile (\<lambda>c. c \<noteq> of_char (CHR '')'')) (drop 2 after);
                   rest = drop (2 + length target) after
               in if target \<noteq> [] \<and> prefix (utf16 '')'') rest
                  then Some (1 + length label + 2 + length target + 1, label) else None)
            else None)
      else None)"

text \<open>\<open>/\[([^\]]+)\]\([^)]+\)/\<close> with replacement \<open>$1\<close>.\<close>

definition match_link16 :: "ustring \<Rightarrow> (nat \<times> ustring) option" where
  "match_link16 s = match_bracketed16 False s"

text \<open>\<open>/!\[([^\]]*)\]\([^)]+\)/\<close> with the empty replacement.\<close>

definition match_image16 :: "ustring \<Rightarrow> (nat \<times> ustring) option" where
  "match_image16 s =
     (if prefix (utf16 ''!'') s then
        (case match_bracketed16 True (drop 1 s) of
           Some (n, label) \<Rightarrow> Some (1 + n, [])
         | None \<Rightarrow> None)
      else None)"

text \<open>The chain of replacements of \<open>createSnippet\<close>, in the order it is written.\<close>

definition strip_markdown16 :: "ustring \<Rightarrow> ustring" where
  "strip_markdown16 content =
     trim16
      (replace_all (match_run is_space16 (utf16 '' ''))
      (replace_all (match_run (\<lambda>c. c = 0x0A) (utf16 '' ''))
      (replace_all match_image16
      (replace_all match_link16
      (replace_all match_code_block16
      (replace_all (match_wrapped (utf16 ''`'') (of_char (CHR ''`'')))
      (replace_all (match_wrapped (utf16 ''*'') (of_char (CHR ''*'')))
      (replace_all (match_wrapped (utf16 ''**'') (of_char (CHR ''*'')))
      (replace_all match_header16 content)))))))))"

text \<open>\<open>generateSlug\<close> of \<open>search.ts\<close>.\<close>

definition slug_char16 :: "16 word \<Rightarrow> bool" where
  "slug_char16 c =
     (c \<in> set (utf16 ''abcdefghijklmnopqrstuvwxyz'') \<or> c \<in> set (utf16 ''0123456789'')
      \<or> is_space16 c \<or> c = of_char (CHR ''-''))"

definition generateSlug16 :: "(ustring \<Rightarrow> ustring) \<Rightarrow> ustring \<Rightarrow> ustring" where
  "generateSlug16 lower text' =
     trim16
      (replace_all (match_run (\<lambda>c. c = of_char (CHR ''-'')) (utf16 ''-''))
      (replace_all (match_run is_space16 (utf16 ''-''))
      (filter slug_char16 (lower text'))))"

text \<open>
  \<open>line.match(/^(#{1,6})\s+(.+)$/)\<close> on a line without line feed; the result is the second
  group. The run of \<open>#\<close> is one to six long and whitespace follows it. \<open>.\<close> matches no line
  terminator (each of them is whitespace too), and the group reaches the end of the line.
  When something other than whitespace follows the whitespace, the group is the rest of
  the line, which must be free of terminators. When the line ends with the whitespace, the
  expression gives back its last character to the group, which is possible when there are
  two at least and the last is no terminator.
\<close>

definition line_terminator16 :: "16 word \<Rightarrow> bool" where
  "line_terminator16 c = (c = 0x0A \<or> c = 0x0D \<or> c = 0x2028 \<or> c = 0x2029)"

definition heading_match16 :: "ustring \<Rightarrow> ustring option" where
  "heading_match16 line =
     (let k = length (takeWhile (\<lambda>c. c = of_char (CHR ''#'')) line);
          tail = drop k line;
          ws = takeWhile is_space16 tail;
          rest = dropWhile is_space16 tail
      in if 1 \<le> k \<and> k \<le> 6 \<and> ws \<noteq> [] then
           (if rest \<noteq> [] then
              (if list_ex line_terminator16 rest then None else Some rest)
            else if 2 \<le> length ws \<and> \<not> line_terminator16 (last ws) then Some [last ws]
            else None)
         else None)"

record heading16 =
  heading_text16 :: ustring
  position16 :: nat
  heading_id16 :: ustring

text \<open>The first loop of \<open>findNearestHeading\<close>, with the running offset \<open>currentPosition\<close>.\<close>

fun collect_headings16 :: "(ustring \<Rightarrow> ustring) \<Rightarrow> ustring list \<Rightarrow> nat \<Rightarrow> heading16 list" where
  "collect_headings16 lower [] currentPosition = []"
| "collect_headings16 lower (line # lines) currentPosition =
     (case heading_match16 line of
        Some g \<Rightarrow>
          \<lparr>heading_text16 = trim16 g, position16 = currentPosition,
           heading_id16 = generateSlug16 lower (trim16 g)\<rparr>
            # collect_headings16 lower lines (currentPosition + length line + 1)
      | None \<Rightarrow> collect_headings16 lower lines (currentPosition + length line + 1))"

text \<open>The second loop, which stops at the first heading after the match.\<close>

fun nearest_heading16 :: "heading16 list \<Rightarrow> nat \<Rightarrow> heading16 option \<Rightarrow> heading16 option" where
  "nearest_heading16 [] matchPosition nearestHeading = nearestHeading"
| "nearest_heading16 (h # hs) matchPosition nearestHeading =
     (if position16 h \<le> matchPosition then nearest_heading16 hs matchPosition (Some h)
      else nearestHeading)"

definition headings_of16 :: "(ustring \<Rightarrow> ustring) \<Rightarrow> ustring \<Rightarrow> heading16 list" where
  "headings_of16 lower content = collect_headings16 lower (split_on 0x0A content) 0"

text \<open>\<open>nearestHeading?.id || null\<close>: an empty id counts as none.\<close>

definition findNearestHeading16 :: "(ustring \<Rightarrow> ustring) \<Rightarrow> ustring \<Rightarrow> nat \<Rightarrow> ustring option" where
  "findNearestHeading16 lower content matchPosition =
     (case nearest_heading16 (headings_of16 lower content) matchPosition None of
        None \<Rightarrow> None
      | Some h \<Rightarrow> if heading_id16 h = [] then None else Some (heading_id16 h))"

record snippet_result16 =
  snippet16 :: ustring
  anchor16 :: "ustring option"

text \<open>\<open>createSnippet\<close> of \<open>search.ts\<close>. The offset \<open>originalIndex\<close> is taken in the
  lower-cased text and compared with offsets of the text itself.\<close>

definition createSnippet16 ::
    "(ustring \<Rightarrow> ustring) \<Rightarrow> ustring \<Rightarrow> ustring \<Rightarrow> int \<Rightarrow> snippet_result16" where
  "createSnippet16 lower content searchTerm maxLength =
     (let lowerSearchTerm = lower searchTerm;
          originalIndex = indexOf (lower content) lowerSearchTerm;
          anchor' = (case originalIndex of
                       Some i \<Rightarrow> findNearestHeading16 lower content i
                     | None \<Rightarrow> None);
          cleanContent = strip_markdown16 content;
          lowerContent = lower cleanContent
      in case indexOf lowerContent lowerSearchTerm of
           None \<Rightarrow>
             \<lparr>snippet16 = slice cleanContent 0 maxLength @
                           (if maxLength < int (length cleanContent) then utf16 ''...'' else []),
              anchor16 = None\<rparr>
         | Some index \<Rightarrow>
             (let start = max 0 (int index - maxLength div 3);
                  stop = min (int (length cleanContent)) (start + maxLength);
                  snippet1 = slice cleanContent start stop;
                  snippet2 = (if 0 < start then utf16 ''...'' @ snippet1 else snippet1);
                  snippet3 = (if stop < int (length cleanContent) then snippet2 @ utf16 ''...''
                              else snippet2)
              in \<lparr>snippet16 = snippet3, anchor16 = anchor'\<rparr>))"

text \<open>
  The heading lines of a text, said without the loops: line \<open>k\<close> of the text starts at the sum
  of the lengths of the lines before it, each counted with its line feed, and a heading line
  is one that \<open>heading_match16\<close> accepts. \<open>heading_lines16\<close> lists them in order, each with the
  offset of its line and the matched group.
\<close>

definition line_offset :: "'a list list \<Rightarrow> nat \<Rightarrow> nat" where
  "line_offset lines k = sum_list (map (\<lambda>l. length l + 1) (take k lines))"

definition heading_lines16 :: "ustring \<Rightarrow> (nat \<times> ustring) list" where
  "heading_lines16 content =
     (let lines = split_on 0x0A content
      in List.map_filter
           (\<lambda>k. map_option (Pair (line_offset lines k)) (heading_match16 (lines ! k)))
           [0..<length lines])"


text \<open>
  The heading id in the specification's words: lower-case, strip everything except
  \<open>[a-z0-9\s-]\<close>, collapse whitespace to \<open>-\<close>, collapse repeated \<open>-\<close>, trim leading and trailing
  \<open>-\<close>.
\<close>

definition strip_dashes16 :: "ustring \<Rightarrow> ustring" where
  "strip_dashes16 s =
     rev (dropWhile (\<lambda>c. c = of_char (CHR ''-''))
       (rev (dropWhile (\<lambda>c. c = of_char (CHR ''-'')) s)))"

definition spec_generateSlug16 :: "(ustring \<Rightarrow> ustring) \<Rightarrow> ustring \<Rightarrow> ustring" where
  "spec_generateSlug16 lower text' =
     strip_dashes16
      (replace_all (match_run (\<lambda>c. c = of_char (CHR ''-'')) (utf16 ''-''))
      (replace_all (match_run is_space16 (utf16 ''-''))
      (filter slug_char16 (lower text'))))"

text \<open>
  The search term stands at offset \<open>k\<close> of a text, when case is ignored, if the text from \<open>k\<close>
  on, lower-cased, starts with the lower-cased term; \<open>first_occurrence\<close> is the first such
  offset. Lower-casing keeps the places of a text when it leaves the length of the text as
  it is and the text from any offset on, lower-cased, is the lower-cased text from that
  offset on.
\<close>

definition occurs_at :: "(ustring \<Rightarrow> ustring) \<Rightarrow> ustring \<Rightarrow> ustring \<Rightarrow> nat \<Rightarrow> bool" where
  "occurs_at lower content searchTerm k = prefix (lower searchTerm) (lower (drop k content))"

definition first_occurrence :: "(ustring \<Rightarrow> ustring) \<Rightarrow> ustring \<Rightarrow> ustring \<Rightarrow> nat option" where
  "first_occurrence lower content searchTerm =
     find (occurs_at lower content searchTerm) [0..<Suc (length content)]"

definition keeps_places :: "(ustring \<Rightarrow> ustring) \<Rightarrow> ustring \<Rightarrow> bool" where
  "keeps_places lower content =
     (length (lower content) = length content
      \<and> list_all (\<lambda>k. lower (drop k content) = drop k (lower content))
            [0..<Suc (length content)])"

text \<open>
  A lower-casing for the examples: the letters \<open>A\<close> to \<open>Z\<close> and the capitals of Latin-1 unit
  by unit, U+0130 to the two units U+0069 U+0307, and every other unit as it is. It is
  \<open>toLowerCase\<close> on text of these characters, of small letters and of characters without
  case.
\<close>

definition lower_unit :: "16 word \<Rightarrow> ustring" where
  "lower_unit c =
     (if (0x41 \<le> c \<and> c \<le> 0x5A) \<or> (0xC0 \<le> c \<and> c \<le> 0xDE \<and> c \<noteq> 0xD7) then [c + 0x20]
      else if c = 0x130 then [0x69, 0x307]
      else [c])"

definition lower_sample :: "ustring \<Rightarrow> ustring" where
  "lower_sample s = concat (map lower_unit s)"

section \<open>Documents\<close>

text \<open>
  A row of the tables \<open>posts\<close> and \<open>pages\<close>, with the fields the code reads. An optional
  field that is not set is \<open>None\<close>; \<open>_id\<close> is \<open>doc_id\<close>. \<open>flag\<close> is the truth value JavaScript
  gives an optional boolean, \<open>truthy\<close> the one it gives an optional string.
\<close>

record document =
  doc_id :: string
  slug :: string
  title :: string
  description :: "string option"
  excerpt :: "string option"
  contentCid :: string
  published :: bool
  unlisted :: "bool option"
  embedding :: "real list option"

definition flag :: "bool option \<Rightarrow> bool" where
  "flag v = (v = Some True)"

datatype doc_type = Post | Page

record search_result =
  r_id :: string
  r_type :: doc_type
  r_slug :: string
  r_title :: string
  r_description :: "string option"
  r_snippet :: string
  r_anchor :: "string option"

section \<open>Keyword search\<close>

text \<open>
  What \<open>search.ts\<close> asks of the store. The full-text index on titles and the queries of
  \<open>posts.ts\<close> and \<open>pages.ts\<close> are not part of the code at hand: they are parameters, each
  any function at all.
\<close>

record search_ctx =
  search_title_posts :: "string \<Rightarrow> document list"
  search_title_pages :: "string \<Rightarrow> document list"
  getAllPosts :: "document list"
  getAllPages :: "document list"
  getPostBySlug :: "string \<Rightarrow> document option"
  getPageBySlug :: "string \<Rightarrow> document option"

text \<open>\<open>d.slice(0, 120) + (d.length > 120 ? "..." : "")\<close>\<close>

definition lead120 :: "string \<Rightarrow> string" where
  "lead120 d = slice d 0 120 @ (if 120 < length d then ''...'' else [])"

text \<open>The two loops of \<open>searchTitleOnly\<close>, with the ids seen so far.\<close>

fun title_posts :: "document list \<Rightarrow> string list \<Rightarrow> search_result list" where
  "title_posts [] seenPostIds = []"
| "title_posts (post # rest) seenPostIds =
     (if doc_id post \<in> set seenPostIds then title_posts rest seenPostIds
      else if flag (unlisted post) then title_posts rest (doc_id post # seenPostIds)
      else
        \<lparr>r_id = doc_id post, r_type = Post, r_slug = slug post, r_title = title post,
         r_description = description post,
         r_snippet = (if truthy (description post) then lead120 (the (description post)) else []),
         r_anchor = None\<rparr>
        # title_posts rest (doc_id post # seenPostIds))"

fun title_pages :: "document list \<Rightarrow> string list \<Rightarrow> search_result list" where
  "title_pages [] seenPageIds = []"
| "title_pages (page # rest) seenPageIds =
     (if doc_id page \<in> set seenPageIds then title_pages rest seenPageIds
      else
        \<lparr>r_id = doc_id page, r_type = Page, r_slug = slug page, r_title = title page,
         r_description = None,
         r_snippet = (if truthy (excerpt page) then lead120 (the (excerpt page)) else title page),
         r_anchor = None\<rparr>
        # title_pages rest (doc_id page # seenPageIds))"

text \<open>
  The comparator of both sorts puts a result whose lower-cased title includes the lower-cased
  query before one whose title does not, and calls any other two equal.
  \<open>Array.prototype.sort\<close> is stable, so the sort is the stable sort by this rank.
\<close>

definition in_title :: "string \<Rightarrow> search_result \<Rightarrow> bool" where
  "in_title query r = includes_str (toLowerCase (r_title r)) (toLowerCase query)"

definition title_rank :: "string \<Rightarrow> search_result \<Rightarrow> nat" where
  "title_rank query r = (if in_title query r then 0 else 1)"

definition sort_results :: "string \<Rightarrow> search_result list \<Rightarrow> search_result list" where
  "sort_results query results = sort_key (title_rank query) results"

definition searchTitleOnly :: "search_ctx \<Rightarrow> string \<Rightarrow> search_result list" where
  "searchTitleOnly ctx query =
     (if trim query = [] then []
      else
        let postsByTitle = take 10 (search_title_posts ctx query);
            pagesByTitle = take 10 (search_title_pages ctx query);
            results = title_posts postsByTitle [] @ title_pages pagesByTitle []
        in take 15 (sort_results query results))"

text \<open>\<open>getIPFSGatewayUrl\<close> and \<open>fetchContentFromIPFS\<close> as \<open>search.ts\<close> has them: one gateway
  and no fallback.\<close>

definition search_getIPFSGatewayUrl :: "env \<Rightarrow> string" where
  "search_getIPFSGatewayUrl e =
     (if truthy (PINATA_GATEWAY_URL e) then ''https://'' @ the (PINATA_GATEWAY_URL e)
      else ''https://gateway.pinata.cloud'')"

definition search_fetchContentFromIPFS ::
    "env \<Rightarrow> network \<Rightarrow> string \<Rightarrow> string list \<Rightarrow> (thrown + string) \<times> string list" where
  "search_fetchContentFromIPFS e net cid reqs =
     (if cid = [] then (Inl (Error ''CID is required to fetch content from IPFS''), reqs)
      else
        let gatewayUrl = search_getIPFSGatewayUrl e @ ''/ipfs/'' @ cid
        in case fetch net gatewayUrl [] reqs of
             (Throws error, reqs') \<Rightarrow> (Inl (rethrow error), reqs')
           | (Responds response, reqs') \<Rightarrow>
               if \<not> ok response then (Inl (rethrow (failed_status response)), reqs')
               else (case body_text response of
                       Inl error \<Rightarrow> (Inl (rethrow error), reqs')
                     | Inr content \<Rightarrow> (Inr content, reqs')))"

text \<open>\<open>s.split(/\s+/)\<close>\<close>

function split_ws :: "string \<Rightarrow> string list" where
  "split_ws [] = [[]]"
| "split_ws (c # cs) =
     (if is_space c then [] # split_ws (dropWhile is_space cs)
      else (case split_ws cs of
              l # ls \<Rightarrow> (c # l) # ls
            | [] \<Rightarrow> [[c]]))"
  by pat_completeness auto
termination
  by (relation "measure length") (auto simp: le_imp_less_Suc length_dropWhile_le)

definition matchesInContent :: "string \<Rightarrow> string \<Rightarrow> bool" where
  "matchesInContent query content =
     (let queryLower = toLowerCase query;
          searchTerms = filter (\<lambda>t. 2 < length t) (split_ws (toLowerCase query));
          contentLower = toLowerCase content
      in includes_str contentLower queryLower
         \<or> list_ex (\<lambda>term. includes_str contentLower term) searchTerms)"

text \<open>
  The state of the two content loops of \<open>search\<close>: the results, the ids added and the
  requests made. One step is the body of a loop for one document; a fetch that throws is
  caught and the document is skipped.
\<close>

record search_state =
  results :: "search_result list"
  addedIds :: "string list"
  requests :: "string list"

definition content_step ::
    "env \<Rightarrow> network \<Rightarrow> string \<Rightarrow> doc_type \<Rightarrow> (string \<Rightarrow> document option) \<Rightarrow> document \<Rightarrow>
     search_state \<Rightarrow> search_state" where
  "content_step e net query kind getBySlug doc st =
     (if doc_id doc \<in> set (addedIds st) \<or> (kind = Post \<and> flag (unlisted doc)) then st
      else
        case getBySlug (slug doc) of
          None \<Rightarrow> st
        | Some full \<Rightarrow>
            if contentCid full = [] then st
            else
              case search_fetchContentFromIPFS e net (contentCid full) (requests st) of
                (Inl error, reqs') \<Rightarrow> st\<lparr>requests := reqs'\<rparr>
              | (Inr content, reqs') \<Rightarrow>
                  if matchesInContent query content then
                    (let snippetResult = createSnippet content query 150
                     in st\<lparr>results := results st @
                              [\<lparr>r_id = doc_id doc, r_type = kind, r_slug = slug doc,
                                r_title = title doc,
                                r_description = (if kind = Post then description doc else None),
                                r_snippet = snippet snippetResult,
                                r_anchor = (if anchor snippetResult = Some [] then None
                                            else anchor snippetResult)\<rparr>],
                            addedIds := doc_id doc # addedIds st,
                            requests := reqs'\<rparr>)
                  else st\<lparr>requests := reqs'\<rparr>)"

fun content_loop ::
    "env \<Rightarrow> network \<Rightarrow> string \<Rightarrow> doc_type \<Rightarrow> (string \<Rightarrow> document option) \<Rightarrow> document list \<Rightarrow>
     search_state \<Rightarrow> search_state" where
  "content_loop e net query kind getBySlug [] st = st"
| "content_loop e net query kind getBySlug (doc # docs) st =
     content_loop e net query kind getBySlug docs (content_step e net query kind getBySlug doc st)"

text \<open>The results of \<open>search\<close> before the final sort, in the order they were found.\<close>

definition search_collect :: "search_ctx \<Rightarrow> env \<Rightarrow> network \<Rightarrow> string \<Rightarrow> string list \<Rightarrow> search_state" where
  "search_collect ctx e net query reqs =
     (let titleResults = searchTitleOnly ctx query;
          st0 = \<lparr>results = titleResults, addedIds = rev (map r_id titleResults), requests = reqs\<rparr>;
          st1 = content_loop e net query Post (getPostBySlug ctx) (getAllPosts ctx) st0
      in content_loop e net query Page (getPageBySlug ctx) (getAllPages ctx) st1)"

definition search :: "search_ctx \<Rightarrow> env \<Rightarrow> network \<Rightarrow> string \<Rightarrow> string list \<Rightarrow> search_result list \<times> string list" where
  "search ctx e net query reqs =
     (if trim query = [] then ([], reqs)
      else
        let st = search_collect ctx e net query reqs
        in (take 15 (sort_results query (results st)), requests st))"

text \<open>A result of type post stems from a post, of the title index or of \<open>getAllPosts\<close>,
  that is not unlisted.\<close>

definition listed_source :: "search_ctx \<Rightarrow> string \<Rightarrow> search_result \<Rightarrow> bool" where
  "listed_source ctx query r =
     (r_type r = Post \<longrightarrow>
        (\<exists>p \<in> set (search_title_posts ctx query) \<union> set (getAllPosts ctx).
            doc_id p = r_id r \<and> \<not> flag (unlisted p)))"

text \<open>The scenario of the specification: a post titled \<open>Intro to Caching\<close>, a post titled
  \<open>Deep Dive: Replication\<close> whose body has the term, and an unlisted post whose body has it
  too.\<close>

definition post_caching :: document where
  "post_caching =
     \<lparr>doc_id = ''p1'', slug = ''intro-to-caching'', title = ''Intro to Caching'',
      description = Some ''About caches'', excerpt = None, contentCid = ''c1'',
      published = True, unlisted = None, embedding = None\<rparr>"

definition post_replication :: document where
  "post_replication =
     \<lparr>doc_id = ''p2'', slug = ''replication'', title = ''Deep Dive: Replication'',
      description = Some ''Replicas'', excerpt = None, contentCid = ''c2'',
      published = True, unlisted = None, embedding = None\<rparr>"

definition post_hidden :: document where
  "post_hidden =
     \<lparr>doc_id = ''p3'', slug = ''hidden'', title = ''Hidden'',
      description = None, excerpt = None, contentCid = ''c3'',
      published = True, unlisted = Some True, embedding = None\<rparr>"

definition blog_ctx :: search_ctx where
  "blog_ctx =
     \<lparr>search_title_posts = (\<lambda>q. [post_caching]),
      search_title_pages = (\<lambda>q. []),
      getAllPosts = [post_hidden, post_replication, post_caching],
      getAllPages = [],
      getPostBySlug = (\<lambda>s. find (\<lambda>p. slug p = s) [post_hidden, post_replication, post_caching]),
      getPageBySlug = (\<lambda>s. None)\<rparr>"

definition blog_net :: network where
  "blog_net n url body =
     (if url = ''https://gateway.pinata.cloud/ipfs/c2''
        then http_ok ''# Notes\<newline>Replicas keep a cache warm''
      else if url = ''https://gateway.pinata.cloud/ipfs/c3'' then http_ok ''caching secrets''
      else http_error 404 ''Not Found'')"

section \<open>The store\<close>

record store =
  posts :: "document list"
  pages :: "document list"

text \<open>\<open>ctx.db.get(id)\<close> on a table.\<close>

definition db_get :: "document list \<Rightarrow> string \<Rightarrow> document option" where
  "db_get table' i = find (\<lambda>d. doc_id d = i) table'"

text \<open>\<open>fetchPostsByIds\<close> and \<open>fetchPagesByIds\<close> of \<open>semanticSearchQueries.ts\<close>.\<close>

definition fetchPostsByIds :: "store \<Rightarrow> string list \<Rightarrow> document list" where
  "fetchPostsByIds db ids =
     List.map_filter
       (\<lambda>i. case db_get (posts db) i of
               None \<Rightarrow> None
             | Some doc \<Rightarrow> if published doc \<and> \<not> flag (unlisted doc) then Some doc else None)
       ids"

definition fetchPagesByIds :: "store \<Rightarrow> string list \<Rightarrow> document list" where
  "fetchPagesByIds db ids =
     List.map_filter
       (\<lambda>i. case db_get (pages db) i of
               None \<Rightarrow> None
             | Some doc \<Rightarrow> if published doc then Some doc else None)
       ids"

section \<open>The embedding provider\<close>

definition HUGGINGFACE_API_URL :: string where
  "HUGGINGFACE_API_URL =
     ''https://router.huggingface.co/hf-inference/models/'' @
     ''sentence-transformers/all-MiniLM-L6-v2/pipeline/feature-extraction''"

text \<open>
  The request to the provider is a POST whose body is \<open>JSON.stringify({ inputs: text })\<close>; the
  network oracle is given \<open>text\<close> itself, of which that body is a fixed encoding.
\<close>

definition isArray :: "json \<Rightarrow> bool" where
  "isArray v = (case v of JArr xs \<Rightarrow> True | _ \<Rightarrow> False)"

definition elements :: "json \<Rightarrow> json list" where
  "elements v = (case v of JArr xs \<Rightarrow> xs | _ \<Rightarrow> [])"

text \<open>The validator \<open>v.array(v.float64())\<close>, which the framework applies to the value an
  action returns: the value passes when it is an array of numbers.\<close>

definition float64_array :: "json \<Rightarrow> real list option" where
  "float64_array v =
     (case v of
        JArr xs \<Rightarrow>
          if list_all (\<lambda>x. case x of JNum n \<Rightarrow> True | _ \<Rightarrow> False) xs
          then Some (map (\<lambda>x. case x of JNum n \<Rightarrow> n | _ \<Rightarrow> 0) xs)
          else None
      | _ \<Rightarrow> None)"

text \<open>The handler of \<open>generateEmbedding\<close> in \<open>embeddings.ts\<close> (the Hugging Face version).\<close>

definition generateEmbedding_handler ::
    "env \<Rightarrow> network \<Rightarrow> string \<Rightarrow> string list \<Rightarrow> (thrown + json) \<times> string list" where
  "generateEmbedding_handler e net text' reqs =
     (if \<not> truthy (HUGGINGFACE_API_KEY e)
      then (Inl (Error ''HUGGINGFACE_API_KEY not configured in Convex environment''), reqs)
      else
        let truncatedText = slice text' 0 2000
        in case fetch net HUGGINGFACE_API_URL truncatedText reqs of
             (Throws error, reqs') \<Rightarrow> (Inl error, reqs')
           | (Responds response, reqs') \<Rightarrow>
               if \<not> ok response then
                 (case body_text response of
                    Inl error \<Rightarrow> (Inl error, reqs')
                  | Inr errorText \<Rightarrow>
                      (Inl (Error (''Hugging Face API error: '' @ show_nat (status response) @
                                   '' '' @ statusText response @ '' - '' @ errorText)), reqs'))
               else
                 (case body_json response of
                    Inl error \<Rightarrow> (Inl error, reqs')
                  | Inr embedding' \<Rightarrow>
                      if \<not> isArray embedding' \<or> length (elements embedding') = 0
                      then (Inl (Error ''Invalid embedding response from Hugging Face API''), reqs')
                      else (Inr embedding', reqs')))"

text \<open>The action: the handler, and the check of what it returns against
  \<open>returns: v.array(v.float64())\<close>. The wording of the framework's error is its own.\<close>

definition generateEmbedding ::
    "env \<Rightarrow> network \<Rightarrow> string \<Rightarrow> string list \<Rightarrow> (thrown + real list) \<times> string list" where
  "generateEmbedding e net text' reqs =
     (case generateEmbedding_handler e net text' reqs of
        (Inl error, reqs') \<Rightarrow> (Inl error, reqs')
      | (Inr value, reqs') \<Rightarrow>
          (case float64_array value of
             None \<Rightarrow> (Inl (Error ''ReturnsValidationError''), reqs')
           | Some vector \<Rightarrow> (Inr vector, reqs')))"

text \<open>The dimension of the vectors of the model \<open>all-MiniLM-L6-v2\<close>, as the blog post
  \<open>content/blog/my-first-blog.md\<close> gives it; the code never names it.\<close>

definition provider_dimension :: nat where
  "provider_dimension = 384"

section \<open>Semantic search\<close>

text \<open>
  Property access on a JSON value. \<open>v[0]\<close> and \<open>v.embeddings\<close> throw a \<open>TypeError\<close> on \<open>null\<close>
  and give \<open>undefined\<close> (\<open>None\<close>) where there is no such property; of an object whose text
  repeats a key, \<open>JSON.parse\<close> keeps the last value.
\<close>

definition index0 :: "json \<Rightarrow> thrown + json option" where
  "index0 v =
     (case v of
        JNull \<Rightarrow> Inl (Error ''Cannot read properties of null'')
      | JBool b \<Rightarrow> Inr None
      | JNum n \<Rightarrow> Inr None
      | JStr s \<Rightarrow> Inr (case s of [] \<Rightarrow> None | c # cs \<Rightarrow> Some (JStr [c]))
      | JArr xs \<Rightarrow> Inr (case xs of [] \<Rightarrow> None | x # rest \<Rightarrow> Some x)
      | JObj kvs \<Rightarrow> Inr (map_of (rev kvs) ''0''))"

definition prop_embeddings :: "json \<Rightarrow> thrown + json option" where
  "prop_embeddings v =
     (case v of
        JNull \<Rightarrow> Inl (Error ''Cannot read properties of null'')
      | JObj kvs \<Rightarrow> Inr (map_of (rev kvs) ''embeddings'')
      | _ \<Rightarrow> Inr None)"

definition js_truthy :: "json option \<Rightarrow> bool" where
  "js_truthy v =
     (case v of
        None \<Rightarrow> False
      | Some JNull \<Rightarrow> False
      | Some (JBool b) \<Rightarrow> b
      | Some (JNum n) \<Rightarrow> n \<noteq> 0
      | Some (JStr s) \<Rightarrow> s \<noteq> []
      | Some (JArr xs) \<Rightarrow> True
      | Some (JObj kvs) \<Rightarrow> True)"

definition isArray_opt :: "json option \<Rightarrow> bool" where
  "isArray_opt v = (case v of Some (JArr xs) \<Rightarrow> True | _ \<Rightarrow> False)"

text \<open>
  The part of \<open>semanticSearch\<close> that reads the provider's answer: \<open>Inl\<close> is what it throws,
  \<open>Inr None\<close> stands for the early \<open>return []\<close>, \<open>Inr (Some v)\<close> is the query embedding the
  search goes on with.
\<close>

definition query_embedding :: "json \<Rightarrow> thrown + json list option" where
  "query_embedding responseData =
     (let checked = (\<lambda>queryEmbedding.
            if \<not> isArray queryEmbedding \<or> length (elements queryEmbedding) = 0 then Inr None
            else Inr (Some (elements queryEmbedding)))
      in if isArray responseData then checked responseData
         else
           case index0 responseData of
             Inl error \<Rightarrow> Inl error
           | Inr first \<Rightarrow>
               if isArray_opt first then checked (the first)
               else
                 case prop_embeddings responseData of
                   Inl error \<Rightarrow> Inl error
                 | Inr embeddings \<Rightarrow>
                     if js_truthy embeddings then
                       (case index0 (the embeddings) of
                          Inl error \<Rightarrow> Inl error
                        | Inr inner \<Rightarrow>
                            if isArray_opt inner then checked (the inner) else Inr None)
                     else Inr None)"

record semantic_result =
  s_id :: string
  s_type :: doc_type
  s_slug :: string
  s_title :: string
  s_description :: "string option"
  s_snippet :: string
  s_score :: real

text \<open>The vector index is not part of the code at hand: \<open>ctx.vectorSearch\<close> is a parameter
  for each table, which gives ids with scores or throws.\<close>

record vector_index =
  vector_posts :: "json list \<Rightarrow> thrown + (string \<times> real) list"
  vector_pages :: "json list \<Rightarrow> thrown + (string \<times> real) list"

text \<open>The two loops that build the results, as the later version of \<open>semanticSearch.ts\<close> has
  them: the snippet is made of the body when the gateway gives it, and of the description
  or the title when the fetch throws.\<close>

fun semantic_posts ::
    "env \<Rightarrow> network \<Rightarrow> document list \<Rightarrow> (string \<times> real) list \<Rightarrow> string list \<Rightarrow>
     semantic_result list \<times> string list" where
  "semantic_posts e net docs [] reqs = ([], reqs)"
| "semantic_posts e net docs ((i, score) # hits) reqs =
     (case find (\<lambda>p. doc_id p = i) docs of
        None \<Rightarrow> semantic_posts e net docs hits reqs
      | Some post \<Rightarrow>
          if flag (unlisted post) then semantic_posts e net docs hits reqs
          else
            let fallback = (if truthy (description post) then lead120 (the (description post))
                            else []);
                (fetched, reqs') = fetchContentFromIPFS e net (contentCid post) reqs;
                snippet' = (case fetched of
                              Inl error \<Rightarrow> fallback
                            | Inr content \<Rightarrow> createSnippet_lead content 150);
                (rest, reqs'') = semantic_posts e net docs hits reqs'
            in (\<lparr>s_id = doc_id post, s_type = Post, s_slug = slug post, s_title = title post,
                 s_description = description post, s_snippet = snippet', s_score = score\<rparr>
                # rest, reqs''))"

fun semantic_pages ::
    "env \<Rightarrow> network \<Rightarrow> document list \<Rightarrow> (string \<times> real) list \<Rightarrow> string list \<Rightarrow>
     semantic_result list \<times> string list" where
  "semantic_pages e net docs [] reqs = ([], reqs)"
| "semantic_pages e net docs ((i, score) # hits) reqs =
     (case find (\<lambda>p. doc_id p = i) docs of
        None \<Rightarrow> semantic_pages e net docs hits reqs
      | Some page \<Rightarrow>
          let (fetched, reqs') = fetchContentFromIPFS e net (contentCid page) reqs;
              snippet' = (case fetched of
                            Inl error \<Rightarrow> title page
                          | Inr content \<Rightarrow> createSnippet_lead content 150);
              (rest, reqs'') = semantic_pages e net docs hits reqs'
          in (\<lparr>s_id = doc_id page, s_type = Page, s_slug = slug page, s_title = title page,
               s_description = None, s_snippet = snippet', s_score = score\<rparr>
              # rest, reqs''))"

definition semanticSearch ::
    "store \<Rightarrow> vector_index \<Rightarrow> env \<Rightarrow> network \<Rightarrow> string \<Rightarrow> string list \<Rightarrow>
     (thrown + semantic_result list) \<times> string list" where
  "semanticSearch db index e net query reqs =
     (if trim query = [] then (Inr [], reqs)
      else if \<not> truthy (HUGGINGFACE_API_KEY e) then (Inr [], reqs)
      else
        case fetch net HUGGINGFACE_API_URL query reqs of
          (Throws error, reqs1) \<Rightarrow> (Inl error, reqs1)
        | (Responds response, reqs1) \<Rightarrow>
            if \<not> ok response then
              (case body_text response of
                 Inl error \<Rightarrow> (Inl error, reqs1)
               | Inr errorText \<Rightarrow> (Inr [], reqs1))
            else
              case body_json response of
                Inl error \<Rightarrow> (Inl error, reqs1)
              | Inr responseData \<Rightarrow>
                  case query_embedding responseData of
                    Inl error \<Rightarrow> (Inl error, reqs1)
                  | Inr None \<Rightarrow> (Inr [], reqs1)
                  | Inr (Some queryEmbedding) \<Rightarrow>
                      case vector_posts index queryEmbedding of
                        Inl error \<Rightarrow> (Inl error, reqs1)
                      | Inr postHits \<Rightarrow>
                          case vector_pages index queryEmbedding of
                            Inl error \<Rightarrow> (Inl error, reqs1)
                          | Inr pageHits \<Rightarrow>
                              let postResults = take 10 postHits;
                                  pageResults = take 10 pageHits;
                                  posts' = fetchPostsByIds db (map fst postResults);
                                  pages' = fetchPagesByIds db (map fst pageResults);
                                  (fromPosts, reqs2) = semantic_posts e net posts' postResults reqs1;
                                  (fromPages, reqs3) = semantic_pages e net pages' pageResults reqs2
                              in (Inr (take 15 (sort_key (\<lambda>r. - s_score r) (fromPosts @ fromPages))),
                                  reqs3))"

definition isSemanticSearchAvailable :: "env \<Rightarrow> bool" where
  "isSemanticSearchAvailable e = truthy (HUGGINGFACE_API_KEY e)"

text \<open>
  What \<open>generateEmbedding\<close> accepts, said of the provider's answer to the request it makes:
  the credential is configured, the answer is a success, and its JSON body is the array of
  the numbers of \<open>vector\<close>, which is not empty.
\<close>

definition acceptable :: "env \<Rightarrow> network \<Rightarrow> string \<Rightarrow> string list \<Rightarrow> real list \<Rightarrow> bool" where
  "acceptable e net text' reqs vector =
     (truthy (HUGGINGFACE_API_KEY e) \<and> vector \<noteq> [] \<and>
      (\<exists>response. net (length reqs) HUGGINGFACE_API_URL (slice text' 0 2000) = Responds response
          \<and> ok response \<and> body_json response = Inr (JArr (map JNum vector))))"

text \<open>
  What a run of the backfill may have written to a table: every row afterwards is a row of
  the table before, as it was or with the field \<open>embedding\<close> set to a vector that
  \<open>generateEmbedding\<close> accepts of the provider for some text, at some moment of the run.
\<close>

definition only_accepted_saved :: "env \<Rightarrow> network \<Rightarrow> document list \<Rightarrow> document list \<Rightarrow> bool" where
  "only_accepted_saved e net before after =
     (\<forall>d'\<in>set after. \<exists>d\<in>set before.
        d' = d \<or> (\<exists>textToEmbed reqs' vector.
                    acceptable e net textToEmbed reqs' vector
                    \<and> d' = d\<lparr>embedding := Some vector\<rparr>))"

text \<open>Concrete inputs: an environment with a credential, a provider that answers with a
  vector of one number, an empty store, an empty vector index, and a vector index that
  throws when it is searched with the empty vector.\<close>

definition keyed_env :: env where
  "keyed_env = \<lparr>PINATA_GATEWAY_URL = None, HUGGINGFACE_API_KEY = Some ''hf_key''\<rparr>"

definition net_short_vector :: network where
  "net_short_vector n url body =
     Responds \<lparr>status = 200, statusText = ''OK'', body_text = Inr ''[1]'',
               body_json = Inr (JArr [JNum 1])\<rparr>"

definition empty_store :: store where
  "empty_store = \<lparr>posts = [], pages = []\<rparr>"

definition empty_index :: vector_index where
  "empty_index = \<lparr>vector_posts = (\<lambda>v. Inr []), vector_pages = (\<lambda>v. Inr [])\<rparr>"

definition index_failing_on_empty :: vector_index where
  "index_failing_on_empty =
     \<lparr>vector_posts = (\<lambda>v. if v = [] then Inl (Error ''empty vector'') else Inr []),
      vector_pages = (\<lambda>v. if v = [] then Inl (Error ''empty vector'') else Inr [])\<rparr>"

section \<open>The embedding backfill\<close>

text \<open>\<open>/\n{3,}/\<close>: a run of three line feeds or more, replaced by two.\<close>

definition match_blank_lines :: "string \<Rightarrow> (nat \<times> string) option" where
  "match_blank_lines s =
     (let k = length (takeWhile (\<lambda>c. c = CHR 0x0A) s)
      in if 3 \<le> k then Some (k, [CHR 0x0A, CHR 0x0A]) else None)"

definition prepareTextForEmbedding :: "string \<Rightarrow> string \<Rightarrow> string" where
  "prepareTextForEmbedding title' content =
     (let cleanContent =
            trim (replace_all match_blank_lines
                 (replace_all match_image
                 (replace_all match_code_block content)))
      in title' @ [CHR 0x0A, CHR 0x0A] @ cleanContent)"

text \<open>
  \<open>getPostsWithoutEmbeddings\<close> and \<open>getPagesWithoutEmbeddings\<close> of \<open>embeddingsQueries.ts\<close>,
  on the table they read: the published rows that have no embedding and are not unlisted,
  the first \<open>limit\<close> of them. The queries return \<open>_id\<close>, \<open>title\<close> and \<open>contentCid\<close> of each row;
  here the row itself is kept, of which the backfill reads these three fields only.
\<close>

definition lacks_embedding :: "document \<Rightarrow> bool" where
  "lacks_embedding doc = (embedding doc = None \<and> \<not> flag (unlisted doc))"

definition withoutEmbeddings :: "document list \<Rightarrow> nat \<Rightarrow> document list" where
  "withoutEmbeddings table' limit = take limit (filter lacks_embedding (filter published table'))"

definition table_of :: "doc_type \<Rightarrow> store \<Rightarrow> document list" where
  "table_of kind db = (case kind of Post \<Rightarrow> posts db | Page \<Rightarrow> pages db)"

definition getPostsWithoutEmbeddings :: "store \<Rightarrow> nat \<Rightarrow> document list" where
  "getPostsWithoutEmbeddings db limit = withoutEmbeddings (posts db) limit"

definition getPagesWithoutEmbeddings :: "store \<Rightarrow> nat \<Rightarrow> document list" where
  "getPagesWithoutEmbeddings db limit = withoutEmbeddings (pages db) limit"

text \<open>\<open>savePostEmbedding\<close> and \<open>savePageEmbedding\<close>: \<open>ctx.db.patch(id, { embedding })\<close>, which
  throws when the table has no row of that id (the wording of the error is the
  framework's own).\<close>

definition patch_embedding :: "document list \<Rightarrow> string \<Rightarrow> real list \<Rightarrow> thrown + document list" where
  "patch_embedding table' i vector =
     (if i \<in> doc_id ` set table' then
        Inr (map (\<lambda>d. if doc_id d = i then d\<lparr>embedding := Some vector\<rparr> else d) table')
      else Inl (Error ''Update on nonexistent document''))"

definition saveEmbedding :: "doc_type \<Rightarrow> store \<Rightarrow> string \<Rightarrow> real list \<Rightarrow> thrown + store" where
  "saveEmbedding kind db i vector =
     (case kind of
        Post \<Rightarrow> (case patch_embedding (posts db) i vector of
                   Inl error \<Rightarrow> Inl error
                 | Inr table' \<Rightarrow> Inr (db\<lparr>posts := table'\<rparr>))
      | Page \<Rightarrow> (case patch_embedding (pages db) i vector of
                   Inl error \<Rightarrow> Inl error
                 | Inr table' \<Rightarrow> Inr (db\<lparr>pages := table'\<rparr>)))"

text \<open>
  The state of a backfill run: the store, the requests made, what \<open>console.error\<close> was
  given (the message and the error) and the counter \<open>processed\<close>.
\<close>

record backfill =
  b_store :: store
  b_requests :: "string list"
  console :: "(string \<times> thrown) list"
  processed :: nat

definition kind_name :: "doc_type \<Rightarrow> string" where
  "kind_name kind = (case kind of Post \<Rightarrow> ''post'' | Page \<Rightarrow> ''page'')"

definition fetch_failed_message :: "doc_type \<Rightarrow> document \<Rightarrow> string" where
  "fetch_failed_message kind doc =
     ''Failed to fetch content from IPFS for '' @ kind_name kind @ '' '' @ doc_id doc @ '':''"

definition embedding_failed_message :: "doc_type \<Rightarrow> document \<Rightarrow> string" where
  "embedding_failed_message kind doc =
     ''Failed to generate embedding for '' @ kind_name kind @ '' '' @ doc_id doc @ '':''"

text \<open>The inner \<open>try\<close> of the loop of \<open>generatePostEmbeddings\<close> and
  \<open>generatePageEmbeddings\<close>: the body of the document, or the empty text when the fetch
  throws, which is written to the console.\<close>

definition content_for_embedding ::
    "doc_type \<Rightarrow> env \<Rightarrow> network \<Rightarrow> document \<Rightarrow> backfill \<Rightarrow> string \<times> backfill" where
  "content_for_embedding kind e net doc st =
     (case fetchContentFromIPFS e net (contentCid doc) (b_requests st) of
        (Inl error, reqs') \<Rightarrow>
          ([], st\<lparr>b_requests := reqs',
                   console := console st @ [(fetch_failed_message kind doc, error)]\<rparr>)
      | (Inr content, reqs') \<Rightarrow> (content, st\<lparr>b_requests := reqs'\<rparr>))"

text \<open>The body of the loop for one document, with the outer \<open>try\<close>: whatever
  \<open>generateEmbedding\<close> or the mutation throws is written to the console, and the loop goes
  on.\<close>

definition embed_document :: "doc_type \<Rightarrow> env \<Rightarrow> network \<Rightarrow> document \<Rightarrow> backfill \<Rightarrow> backfill" where
  "embed_document kind e net doc st =
     (let (content, st1) = content_for_embedding kind e net doc st;
          textToEmbed = (if content \<noteq> [] then prepareTextForEmbedding (title doc) content
                         else title doc)
      in case generateEmbedding e net textToEmbed (b_requests st1) of
           (Inl error, reqs') \<Rightarrow>
             st1\<lparr>b_requests := reqs',
                 console := console st1 @ [(embedding_failed_message kind doc, error)]\<rparr>
         | (Inr vector, reqs') \<Rightarrow>
             (case saveEmbedding kind (b_store st1) (doc_id doc) vector of
                Inl error \<Rightarrow>
                  st1\<lparr>b_requests := reqs',
                      console := console st1 @ [(embedding_failed_message kind doc, error)]\<rparr>
              | Inr db' \<Rightarrow>
                  st1\<lparr>b_store := db', b_requests := reqs', processed := processed st1 + 1\<rparr>))"

fun embed_documents :: "doc_type \<Rightarrow> env \<Rightarrow> network \<Rightarrow> document list \<Rightarrow> backfill \<Rightarrow> backfill" where
  "embed_documents kind e net [] st = st"
| "embed_documents kind e net (doc # docs) st =
     embed_documents kind e net docs (embed_document kind e net doc st)"

definition generateEmbeddings ::
    "doc_type \<Rightarrow> env \<Rightarrow> network \<Rightarrow> store \<Rightarrow> string list \<Rightarrow> (string \<times> thrown) list \<Rightarrow> backfill" where
  "generateEmbeddings kind e net db0 reqs console0 =
     embed_documents kind e net (withoutEmbeddings (table_of kind db0) 10)
       \<lparr>b_store = db0, b_requests = reqs, console = console0, processed = 0\<rparr>"

definition generatePostEmbeddings ::
    "env \<Rightarrow> network \<Rightarrow> store \<Rightarrow> string list \<Rightarrow> (string \<times> thrown) list \<Rightarrow> backfill" where
  "generatePostEmbeddings e net db0 reqs console0 = generateEmbeddings Post e net db0 reqs console0"

definition generatePageEmbeddings ::
    "env \<Rightarrow> network \<Rightarrow> store \<Rightarrow> string list \<Rightarrow> (string \<times> thrown) list \<Rightarrow> backfill" where
  "generatePageEmbeddings e net db0 reqs console0 = generateEmbeddings Page e net db0 reqs console0"

text \<open>The documents of a batch whose attempt failed, as the console tells: those for which
  the message of the outer \<open>catch\<close> was written.\<close>

definition failed_documents :: "doc_type \<Rightarrow> document list \<Rightarrow> backfill \<Rightarrow> document list" where
  "failed_documents kind batch st =
     filter (\<lambda>doc. embedding_failed_message kind doc \<in> fst ` set (console st)) batch"

text \<open>
  For the proofs: the table with new embeddings written to the rows whose ids \<open>f\<close> has, the
  messages on the console, and the table of a kind in a state.
\<close>

definition set_embeddings :: "(string \<Rightarrow> real list option) \<Rightarrow> document list \<Rightarrow> document list" where
  "set_embeddings f table' =
     map (\<lambda>d. case f (doc_id d) of None \<Rightarrow> d | Some v \<Rightarrow> d\<lparr>embedding := Some v\<rparr>) table'"

definition msgs :: "backfill \<Rightarrow> string set" where
  "msgs st = fst ` set (console st)"

definition tbl :: "doc_type \<Rightarrow> backfill \<Rightarrow> document list" where
  "tbl kind st = table_of kind (b_store st)"

text \<open>A store with two posts and a page that lack an embedding, and a network on which the
  gateway has no body (so the title alone is embedded) and the provider fails for the title
  of the first post and answers every other text with a vector.\<close>

definition first_post :: document where
  "first_post =
     \<lparr>doc_id = ''a1'', slug = ''first'', title = ''First'', description = None, excerpt = None,
      contentCid = ''c1'', published = True, unlisted = None, embedding = None\<rparr>"

definition second_post :: document where
  "second_post =
     \<lparr>doc_id = ''a2'', slug = ''second'', title = ''Second'', description = None, excerpt = None,
      contentCid = ''c2'', published = True, unlisted = None, embedding = None\<rparr>"

definition about_page :: document where
  "about_page =
     \<lparr>doc_id = ''b1'', slug = ''about'', title = ''About'', description = None, excerpt = None,
      contentCid = ''c3'', published = True, unlisted = None, embedding = None\<rparr>"

definition backlog_store :: store where
  "backlog_store = \<lparr>posts = [first_post, second_post], pages = [about_page]\<rparr>"

definition flaky_net :: network where
  "flaky_net n url body =
     (if url = HUGGINGFACE_API_URL then
        (if body = ''First'' then http_error 503 ''Service Unavailable''
         else Responds \<lparr>status = 200, statusText = ''OK'', body_text = Inr ''[1,2]'',
                        body_json = Inr (JArr [JNum 1, JNum 2])\<rparr>)
      else http_error 404 ''Not Found'')"

section \<open>Properties of the content gateway client\<close>

lemma show_nat_500: "show_nat 500 = ''500''"
  by (simp add: show_nat.simps)

lemma show_nat_403: "show_nat 403 = ''403''"
  by (simp add: show_nat.simps)

lemma custom_gateway_url: "getIPFSGatewayUrl custom_env = ''https://my.mypinata.cloud''"
  by (simp add: getIPFSGatewayUrl_def custom_env_def truthy_def)

lemma default_gateway_url: "getIPFSGatewayUrl default_env = publicGatewayBase"
  by (simp add: getIPFSGatewayUrl_def default_env_def truthy_def publicGatewayBase_def)

lemma fetch_simp: "fetch net url body reqs = (net (length reqs) url body, reqs @ [url])"
  by (simp add: fetch_def)

lemma fetch_fallback_reqs: "snd (fetch_fallback net url reqs) = reqs @ [url]"
  by (simp add: fetch_fallback_def fetch_simp split: fetch_outcome.splits)

lemma try_gateway_ok:
  "primary_failure net g = None \<Longrightarrow> \<exists>content. try_gateway net g p [] = (Inr content, [g])"
  by (auto simp: try_gateway_def primary_failure_def fetch_simp
        split: fetch_outcome.splits sum.splits if_splits)

lemma try_gateway_failed:
  "primary_failure net g = Some err \<Longrightarrow> \<not> auth_status net g \<Longrightarrow>
     try_gateway net g p [] = (Inl err, [g])"
  by (auto simp: try_gateway_def primary_failure_def auth_status_def fetch_simp
        split: fetch_outcome.splits sum.splits if_splits)

lemma try_gateway_reqs:
  "snd (try_gateway net g p []) = [g] \<or> snd (try_gateway net g p []) = [g, p]"
  by (simp add: try_gateway_def fetch_simp fetch_fallback_reqs split: fetch_outcome.splits)

lemma fetchContentFromIPFS_reqs:
  assumes "cid \<noteq> []"
  shows "\<exists>rest. snd (fetchContentFromIPFS e net cid []) = (getIPFSGatewayUrl e @ ''/ipfs/'' @ cid) # rest
           \<and> set rest \<subseteq> {publicGatewayBase @ ''/ipfs/'' @ cid}"
proof -
  let ?g = "getIPFSGatewayUrl e @ ''/ipfs/'' @ cid"
  let ?p = "publicGatewayBase @ ''/ipfs/'' @ cid"
  obtain r1 q1 where t: "try_gateway net ?g ?p [] = (r1, q1)"
    by (cases "try_gateway net ?g ?p []")
  from try_gateway_reqs [of net ?g ?p] t have q1: "q1 = [?g] \<or> q1 = [?g, ?p]" by simp
  obtain r2 q2 where f: "fetch_fallback net ?p q1 = (r2, q2)"
    by (cases "fetch_fallback net ?p q1")
  from fetch_fallback_reqs [of net ?p q1] f have q2: "q2 = q1 @ [?p]" by simp
  show ?thesis using assms t f q1 q2
    by (auto simp: fetchContentFromIPFS_def Let_def split: sum.splits)
qed

text \<open>
  Claim C1, as the code has it. For a non-empty content address, a call requests the primary
  endpoint first and anything it requests afterwards is the public fallback endpoint. The
  fallback is requested only after the primary attempt failed: a primary attempt that
  succeeds is the only request. When the primary attempt failed by a thrown error or by a
  status other than 401, 403 and 429, the fallback is requested exactly once if the primary
  endpoint differs from the public one, and not at all if they are identical, in which case
  the single failure is what the call throws.
\<close>

theorem fallback_policy:
  assumes "cid \<noteq> []"
  shows "let gatewayUrl = getIPFSGatewayUrl e @ ''/ipfs/'' @ cid;
             publicGatewayUrl = publicGatewayBase @ ''/ipfs/'' @ cid;
             (res, reqs) = fetchContentFromIPFS e net cid []
         in reqs \<noteq> [] \<and> hd reqs = gatewayUrl \<and> set (tl reqs) \<subseteq> {publicGatewayUrl}
            \<and> (case primary_failure net gatewayUrl of
                  None \<Rightarrow> reqs = [gatewayUrl]
                | Some err \<Rightarrow>
                    auth_status net gatewayUrl
                    \<or> (if getIPFSGatewayUrl e \<noteq> publicGatewayBase
                        then reqs = [gatewayUrl, publicGatewayUrl]
                        else reqs = [gatewayUrl] \<and> res = Inl (rethrow err)))"
proof -
  let ?g = "getIPFSGatewayUrl e @ ''/ipfs/'' @ cid"
  let ?p = "publicGatewayBase @ ''/ipfs/'' @ cid"
  obtain res reqs where r: "fetchContentFromIPFS e net cid [] = (res, reqs)"
    by (cases "fetchContentFromIPFS e net cid []")
  from fetchContentFromIPFS_reqs [OF assms, of e net] r
  have shape: "reqs \<noteq> []" "hd reqs = ?g" "set (tl reqs) \<subseteq> {?p}"
    by auto
  have policy: "case primary_failure net ?g of
                  None \<Rightarrow> reqs = [?g]
                | Some err \<Rightarrow>
                    auth_status net ?g
                    \<or> (if getIPFSGatewayUrl e \<noteq> publicGatewayBase
                        then reqs = [?g, ?p]
                        else reqs = [?g] \<and> res = Inl (rethrow err))"
  proof (cases "primary_failure net ?g")
    case None
    from try_gateway_ok [OF None, of ?p] obtain content
      where "try_gateway net ?g ?p [] = (Inr content, [?g])" by blast
    with r assms None show ?thesis
      by (simp add: fetchContentFromIPFS_def Let_def)
  next
    case (Some err)
    show ?thesis
    proof (cases "auth_status net ?g")
      case True
      with Some show ?thesis by simp
    next
      case False
      from try_gateway_failed [OF Some False, of ?p]
      have t: "try_gateway net ?g ?p [] = (Inl err, [?g])" .
      obtain r2 q2 where f: "fetch_fallback net ?p [?g] = (r2, q2)"
        by (cases "fetch_fallback net ?p [?g]")
      from fetch_fallback_reqs [of net ?p "[?g]"] f have "q2 = [?g, ?p]" by simp
      with r assms Some False t f show ?thesis
        by (auto simp: fetchContentFromIPFS_def Let_def split: sum.splits)
    qed
  qed
  show ?thesis
    unfolding Let_def r prod.case
    by (intro conjI) (rule shape policy)+
qed

text \<open>The theorem at the default environment, where both endpoints are the public gateway,
  which answers 500: one request, and its failure is thrown.\<close>

theorem fallback_policy_witness:
  "''Qm'' \<noteq> [] \<and>
   fetchContentFromIPFS default_env net_always_500 ''Qm'' [] =
     (Inl (Error ''Failed to fetch content from IPFS: Failed to fetch content from IPFS: 500 Internal Server Error''),
      [''https://gateway.pinata.cloud/ipfs/Qm''])"
proof -
  obtain res reqs where r: "fetchContentFromIPFS default_env net_always_500 ''Qm'' [] = (res, reqs)"
    by (cases "fetchContentFromIPFS default_env net_always_500 ''Qm'' []")
  have "''Qm'' \<noteq> []" by simp
  from fallback_policy [OF this, of default_env net_always_500] r show ?thesis
    by (simp add: default_gateway_url primary_failure_def auth_status_def net_always_500_def
        http_error_def ok_def publicGatewayBase_def failed_status_def rethrow_def message_of_def
        show_nat_500 Let_def)
qed

text \<open>
  Claim C1 as the specification states it fails: with a custom gateway that answers 500
  (not 401, 403 or 429, and nothing thrown) the public gateway is requested all the same,
  and its body is returned.
\<close>

theorem fallback_policy_counterexample:
  "net_500_then_ok 0 ''https://my.mypinata.cloud/ipfs/Qm'' [] = http_error 500 ''Internal Server Error''
   \<and> fetchContentFromIPFS custom_env net_500_then_ok ''Qm'' [] =
       (Inr ''hello'', [''https://my.mypinata.cloud/ipfs/Qm'', ''https://gateway.pinata.cloud/ipfs/Qm''])
   \<and> \<not> spec_fallback_policy custom_env net_500_then_ok ''Qm''"
  by (simp add: spec_fallback_policy_def fetchContentFromIPFS_def try_gateway_def fetch_fallback_def
        fetch_simp custom_gateway_url publicGatewayBase_def net_500_then_ok_def http_error_def
        http_ok_def ok_def primary_threw_def auth_status_def failed_status_def show_nat_500)

text \<open>
  Claim C2 at an input where it fails. The custom gateway answers 403 and the public gateway
  answers 500, both times it is asked: the error thrown carries the fallback's
  \<open>500 Internal Server Error\<close> and nothing of the primary's 403, and the fallback was
  requested twice.
\<close>

theorem both_fail_surfaces_fallback_error:
  "fetchContentFromIPFS custom_env net_403_then_500 ''Qm'' [] =
     (Inl (Error ''Failed to fetch content from IPFS: Failed to fetch content from IPFS: 500 Internal Server Error''),
      [''https://my.mypinata.cloud/ipfs/Qm'', ''https://gateway.pinata.cloud/ipfs/Qm'',
       ''https://gateway.pinata.cloud/ipfs/Qm''])"
  by (simp add: fetchContentFromIPFS_def try_gateway_def fetch_fallback_def
        fetch_simp custom_gateway_url publicGatewayBase_def net_403_then_500_def http_error_def
        ok_def failed_status_def rethrow_def message_of_def show_nat_500 Let_def)

section \<open>Properties of snippets\<close>

lemma length_slice:
  assumes "0 \<le> a" "0 \<le> b"
  shows "int (length (slice s a b)) \<le> max 0 (b - a)"
  using assms by (auto simp: slice_def Let_def min_def max_def)

lemma sublist_slice: "sublist (slice s a b) s"
proof -
  have "sublist (take n (drop m s)) s" for n m
    by (meson sublist_drop sublist_order.order_trans sublist_take)
  then show ?thesis by (simp add: slice_def Let_def)
qed

text \<open>
  Claim C10. For a maximal length that is not negative, the snippet of \<open>createSnippet\<close> is at
  most six characters longer: it is a window of at most \<open>maxLength\<close> characters cut out of
  the stripped text, with \<open>...\<close> before it or not, and \<open>...\<close> after it or not. The variant
  without a search term is at most three characters longer.
\<close>

theorem snippet_length_bound:
  assumes "0 \<le> maxLength"
  shows "int (length (snippet (createSnippet content searchTerm maxLength))) \<le> maxLength + 6
       \<and> (\<exists>pre window post.
            snippet (createSnippet content searchTerm maxLength) = pre @ window @ post
            \<and> (pre = [] \<or> pre = ''...'') \<and> (post = [] \<or> post = ''...'')
            \<and> int (length window) \<le> maxLength
            \<and> sublist window (strip_markdown content))
       \<and> int (length (createSnippet_lead content maxLength)) \<le> maxLength + 3"
proof -
  let ?clean = "strip_markdown content"
  have lead: "int (length (createSnippet_lead content maxLength)) \<le> maxLength + 3"
    using assms length_slice [of 0 maxLength ?clean]
    by (auto simp: createSnippet_lead_def Let_def)
  have window: "\<exists>pre window post.
            snippet (createSnippet content searchTerm maxLength) = pre @ window @ post
            \<and> (pre = [] \<or> pre = ''...'') \<and> (post = [] \<or> post = ''...'')
            \<and> int (length window) \<le> maxLength
            \<and> sublist window ?clean"
  proof (cases "indexOf (toLowerCase ?clean) (toLowerCase searchTerm)")
    case None
    let ?w = "slice ?clean 0 maxLength"
    let ?post = "if maxLength < int (length ?clean) then ''...'' else []"
    have "snippet (createSnippet content searchTerm maxLength) = [] @ ?w @ ?post"
      using None by (simp add: createSnippet_def Let_def)
    moreover have "int (length ?w) \<le> maxLength"
      using assms length_slice [of 0 maxLength ?clean] by simp
    moreover have "sublist ?w ?clean" by (rule sublist_slice)
    moreover have "?post = [] \<or> ?post = ''...''" by simp
    ultimately show ?thesis by blast
  next
    case (Some index)
    define start where "start = max 0 (int index - maxLength div 3)"
    define stop where "stop = min (int (length ?clean)) (start + maxLength)"
    let ?w = "slice ?clean start stop"
    let ?pre = "if 0 < start then ''...'' else []"
    let ?post = "if stop < int (length ?clean) then ''...'' else []"
    have "snippet (createSnippet content searchTerm maxLength) = ?pre @ ?w @ ?post"
      using Some by (simp add: createSnippet_def Let_def start_def stop_def)
    moreover have "0 \<le> start" by (simp add: start_def)
    then have "int (length ?w) \<le> maxLength"
      using assms length_slice [of start stop ?clean] by (auto simp: stop_def)
    moreover have "sublist ?w ?clean" by (rule sublist_slice)
    moreover have "?pre = [] \<or> ?pre = ''...''" by simp
    moreover have "?post = [] \<or> ?post = ''...''" by simp
    ultimately show ?thesis by blast
  qed
  then obtain pre window post where
    w: "snippet (createSnippet content searchTerm maxLength) = pre @ window @ post"
       "pre = [] \<or> pre = ''...''" "post = [] \<or> post = ''...''"
       "int (length window) \<le> maxLength"
    by blast
  have "int (length pre) \<le> 3" "int (length post) \<le> 3" using w(2,3) by auto
  with w(1,4) have "int (length (snippet (createSnippet content searchTerm maxLength))) \<le> maxLength + 6"
    by simp
  with window lead show ?thesis by blast
qed

text \<open>The bound at a text of twenty characters and a window of six: both ellipses are
  there.\<close>

theorem snippet_length_bound_witness:
  "(0::int) \<le> 6 \<and>
   int (length (snippet (createSnippet ''0123456789abcdefghij'' ''f'' 6))) \<le> 6 + 6 \<and>
   snippet (createSnippet ''0123456789abcdefghij'' ''f'' 6) = ''...defghi...''"
proof -
  have h: "(0::int) \<le> 6" by simp
  have e: "snippet (createSnippet ''0123456789abcdefghij'' ''f'' 6) = ''...defghi...''"
    by code_simp
  have "int (length (snippet (createSnippet ''0123456789abcdefghij'' ''f'' 6))) \<le> 6 + 6"
    using snippet_length_bound [OF h, of "''0123456789abcdefghij''" "''f''"] by blast
  with h e show ?thesis by blast
qed

lemma replace_all_id:
  "(\<And>c t. suffix (c # t) s \<Longrightarrow> m (c # t) = None) \<Longrightarrow> replace_all m s = s"
proof (induction s)
  case Nil
  then show ?case by simp
next
  case (Cons a s)
  have "m (a # s) = None" using Cons.prems [of a s] by simp
  moreover have "replace_all m s = s"
    by (rule Cons.IH) (simp add: Cons.prems suffix_ConsI)
  ultimately show ?case by (simp add: replace_all.simps(2))
qed

lemma match_run_Cons:
  "match_run P r (c # cs) = (if P c then Some (Suc (length (takeWhile P cs)), r) else None)"
  by (simp add: match_run_def)

lemma replace_all_run_Cons:
  "replace_all (match_run P r) (c # cs) =
     (if P c then r @ replace_all (match_run P r) (dropWhile P cs)
      else c # replace_all (match_run P r) cs)"
  by (simp add: match_run_Cons dropWhile_eq_drop)

declare replace_all.simps(2) [simp del]

lemma single_spaced_run: "single_spaced s \<Longrightarrow> replace_all (match_run is_space '' '') s = s"
proof (induction s)
  case Nil
  then show ?case by simp
next
  case (Cons c cs)
  show ?case
  proof (cases "is_space c")
    case True
    with Cons.prems have c: "c = CHR '' ''" and cs: "cs = [] \<or> \<not> is_space (hd cs)" and s: "single_spaced cs"
      by simp_all
    from cs have "dropWhile is_space cs = cs" by (simp add: dropWhile_eq_self_iff)
    with True c Cons.IH [OF s] show ?thesis by (simp add: replace_all_run_Cons)
  next
    case False
    with Cons show ?thesis by (simp add: replace_all_run_Cons)
  qed
qed

lemma single_spaced_newlines:
  "single_spaced s \<Longrightarrow> replace_all (match_run (\<lambda>c. c = CHR 0x0A) '' '') s = s"
proof (induction s)
  case Nil
  then show ?case by simp
next
  case (Cons c cs)
  have "c \<noteq> CHR 0x0A" using Cons.prems by (auto simp: is_space_def split: if_splits)
  moreover have "single_spaced cs" using Cons.prems by (simp split: if_splits)
  ultimately show ?case using Cons.IH by (simp add: replace_all_run_Cons)
qed

lemma is_space_blank: "is_space (CHR '' '')"
  by (simp add: is_space_def)

lemma run_head:
  "\<not> is_space c \<Longrightarrow> replace_all (match_run is_space r) (c # cs) = c # replace_all (match_run is_space r) cs"
  by (simp add: replace_all_run_Cons)

lemma single_spaced_collapse: "single_spaced (replace_all (match_run is_space '' '') s)"
proof (induction s rule: length_induct)
  case (1 s)
  show ?case
  proof (cases s)
    case Nil
    then show ?thesis by simp
  next
    case (Cons c cs)
    show ?thesis
    proof (cases "is_space c")
      case True
      let ?d = "dropWhile is_space cs"
      have len: "length ?d < length s" using Cons by (simp add: le_imp_less_Suc length_dropWhile_le)
      have ih: "single_spaced (replace_all (match_run is_space '' '') ?d)"
        using 1 len by blast
      have hd: "replace_all (match_run is_space '' '') ?d = [] \<or>
                \<not> is_space (hd (replace_all (match_run is_space '' '') ?d))"
      proof (cases ?d)
        case Nil
        show ?thesis unfolding Nil by simp
      next
        case (Cons e es)
        then have "\<not> is_space e" using hd_dropWhile [of is_space cs] by simp
        with Cons show ?thesis by (simp add: run_head)
      qed
      from True Cons ih hd show ?thesis by (simp add: replace_all_run_Cons is_space_blank)
    next
      case False
      have "single_spaced (replace_all (match_run is_space '' '') cs)"
        using 1 Cons by simp
      with False Cons show ?thesis by (simp add: replace_all_run_Cons)
    qed
  qed
qed

lemma single_spaced_dropWhile: "single_spaced s \<Longrightarrow> single_spaced (dropWhile P s)"
  by (induction s) (auto split: if_splits)

lemma single_spaced_prefix: "single_spaced (xs @ ys) \<Longrightarrow> single_spaced xs"
  by (induction xs) (auto split: if_splits simp: hd_append)

lemma strip_trailing_prefix: "\<exists>zs. s = rev (dropWhile P (rev s)) @ zs"
proof -
  have "rev (takeWhile P (rev s) @ dropWhile P (rev s)) = s" by simp
  then have "s = rev (dropWhile P (rev s)) @ rev (takeWhile P (rev s))"
    by (simp only: rev_append)
  then show ?thesis by blast
qed

lemma single_spaced_trim: "single_spaced s \<Longrightarrow> single_spaced (trim s)"
proof -
  assume "single_spaced s"
  then have d: "single_spaced (dropWhile is_space s)" by (rule single_spaced_dropWhile)
  obtain zs where "dropWhile is_space s = trim s @ zs"
    using strip_trailing_prefix [of "dropWhile is_space s" is_space] by (auto simp: trim_def)
  with d show ?thesis by (metis single_spaced_prefix)
qed

lemma trim_idem: "trim (trim s) = trim s"
proof -
  let ?u = "dropWhile is_space s"
  let ?g = "rev (dropWhile is_space (rev ?u))"
  obtain zs where z: "?u = ?g @ zs" using strip_trailing_prefix [of ?u is_space] by blast
  have "dropWhile is_space ?g = ?g"
  proof (cases "?g = []")
    case True
    show ?thesis by (simp only: True dropWhile.simps)
  next
    case False
    then have "hd ?g = hd ?u" using z by (metis hd_append2)
    moreover have "?u \<noteq> []" using False z by (metis append_is_Nil_conv)
    then have "\<not> is_space (hd ?u)" by (rule hd_dropWhile)
    ultimately show ?thesis using False by (simp add: dropWhile_eq_self_iff)
  qed
  then show ?thesis by (simp add: trim_def)
qed

text \<open>
  Where an expression has no match the pass changes nothing. Each markdown pass replaces a
  match by something shorter, and the two whitespace passes and \<open>trim\<close> lengthen nothing: a
  pass that finds a match makes the text shorter for good.
\<close>

lemma matches_in_iff: "matches_in m s \<longleftrightarrow> (\<exists>t. suffix t s \<and> m t \<noteq> None)"
  by (simp add: matches_in_def list_ex_iff Bex_def in_set_suffixes)

lemma matches_in_Cons:
  "matches_in m (c # cs) \<longleftrightarrow> m (c # cs) \<noteq> None \<or> matches_in m cs"
  by (auto simp: matches_in_iff suffix_Cons)

lemma replace_all_no_match:
  assumes "\<not> matches_in m s"
  shows "replace_all m s = s"
proof (rule replace_all_id)
  fix c t assume "suffix (c # t) s"
  show "m (c # t) = None"
  proof (rule ccontr)
    assume "m (c # t) \<noteq> None"
    with \<open>suffix (c # t) s\<close> have "matches_in m s" unfolding matches_in_iff by blast
    with assms show False by simp
  qed
qed

lemma length_replace_all_le:
  assumes "\<And>t n r. m t = Some (n, r) \<Longrightarrow> length r \<le> n \<and> n \<le> length t"
  shows "length (replace_all m s) \<le> length s"
proof (induction s rule: length_induct)
  case (1 s)
  show ?case
  proof (cases s)
    case Nil
    then show ?thesis by simp
  next
    case (Cons c cs)
    show ?thesis
    proof (cases "m (c # cs)")
      case None
      have "length (replace_all m cs) \<le> length cs" using 1 Cons by simp
      with None Cons show ?thesis by (simp add: replace_all.simps(2))
    next
      case (Some nr)
      obtain n r where nr: "nr = (n, r)" by (cases nr)
      from assms [of "c # cs" n r] Some nr have b: "length r \<le> n" "n \<le> Suc (length cs)" by simp_all
      have "length (replace_all m (drop (n - 1) cs)) \<le> length (drop (n - 1) cs)"
        using 1 [rule_format, of "drop (n - 1) cs"] Cons by simp
      with b Some nr Cons show ?thesis by (simp add: replace_all.simps(2))
    qed
  qed
qed

lemma length_replace_all_less:
  assumes "\<And>t n r. m t = Some (n, r) \<Longrightarrow> length r < n \<and> n \<le> length t"
    and "matches_in m s"
  shows "length (replace_all m s) < length s"
  using assms(2)
proof (induction s)
  case Nil
  then have "m [] \<noteq> None" by (simp add: matches_in_iff)
  then obtain n r where "m [] = Some (n, r)" by auto
  from assms(1) [OF this] show ?case by auto
next
  case (Cons c cs)
  have le: "\<And>t n r. m t = Some (n, r) \<Longrightarrow> length r \<le> n \<and> n \<le> length t"
    using assms(1) by (meson less_imp_le)
  show ?case
  proof (cases "m (c # cs)")
    case None
    with Cons.prems have "matches_in m cs" by (simp add: matches_in_Cons)
    from Cons.IH [OF this] None show ?thesis by (simp add: replace_all.simps(2))
  next
    case (Some nr)
    obtain n r where nr: "nr = (n, r)" by (cases nr)
    from assms(1) [of "c # cs" n r] Some nr have b: "length r < n" "n \<le> Suc (length cs)" by simp_all
    have "length (replace_all m (drop (n - 1) cs)) \<le> length (drop (n - 1) cs)"
      by (rule length_replace_all_le) (rule le)
    with b Some nr show ?thesis by (simp add: replace_all.simps(2))
  qed
qed

lemma indexOf_bound: "indexOf s t = Some i \<Longrightarrow> i + length t \<le> length s"
proof (induction s arbitrary: i)
  case Nil
  then show ?case by (simp split: if_splits)
next
  case (Cons c cs)
  show ?case
  proof (cases "prefix t (c # cs)")
    case True
    with Cons.prems have "i = 0" by simp
    with prefix_length_le [OF True] show ?thesis by simp
  next
    case False
    with Cons.prems obtain j where "indexOf cs t = Some j" "i = Suc j" by auto
    with Cons.IH show ?thesis by simp
  qed
qed

lemma header_bound: "match_header t = Some (n, r) \<Longrightarrow> length r < n \<and> n \<le> length t"
  by (auto simp: match_header_def Let_def split: if_splits)

lemma wrapped_bound:
  assumes "d \<noteq> []" and "match_wrapped d x t = Some (n, r)"
  shows "length r < n \<and> n \<le> length t"
proof -
  let ?inner = "takeWhile (\<lambda>c. c \<noteq> x) (drop (length d) t)"
  let ?after = "drop (length d + length ?inner) t"
  from assms(2) have p: "prefix d ?after" and n: "n = length d + length ?inner + length d"
    and r: "r = ?inner"
    by (auto simp: match_wrapped_def Let_def split: if_splits)
  from p have "length d \<le> length ?after" by (rule prefix_length_le)
  with assms(1) have "length d + length ?inner + length d \<le> length t" by (cases d) auto
  with n r assms(1) show ?thesis by simp
qed

lemma code_block_bound: "match_code_block t = Some (n, r) \<Longrightarrow> length r < n \<and> n \<le> length t"
  by (auto simp: match_code_block_def split: if_splits option.splits dest!: indexOf_bound prefix_length_le)

lemma bracketed_bound:
  assumes "match_bracketed b t = Some (n, r)"
  shows "length r < n \<and> n \<le> length t"
proof -
  let ?label = "takeWhile (\<lambda>c. c \<noteq> CHR '']'') (drop 1 t)"
  let ?after = "drop (1 + length ?label) t"
  let ?target = "takeWhile (\<lambda>c. c \<noteq> CHR '')'') (drop 2 ?after)"
  let ?rest = "drop (2 + length ?target) ?after"
  from assms have p: "prefix '')'' ?rest"
    and n: "n = 1 + length ?label + 2 + length ?target + 1" and r: "r = ?label"
    by (auto simp: match_bracketed_def Let_def split: if_splits)
  from p have "1 \<le> length ?rest" using prefix_length_le by fastforce
  then have "1 + length ?label + 2 + length ?target + 1 \<le> length t" by simp
  with n r show ?thesis by simp
qed

lemma link_bound: "match_link t = Some (n, r) \<Longrightarrow> length r < n \<and> n \<le> length t"
  unfolding match_link_def by (rule bracketed_bound)

lemma image_bound:
  assumes "match_image t = Some (n, r)"
  shows "length r < n \<and> n \<le> length t"
proof -
  from assms obtain k label where p: "prefix ''!'' t"
    and b: "match_bracketed True (drop 1 t) = Some (k, label)" and n: "n = 1 + k" and r: "r = []"
    by (auto simp: match_image_def split: if_splits option.splits)
  from bracketed_bound [OF b] have "k \<le> length (drop 1 t)" by simp
  moreover from p have "1 \<le> length t" using prefix_length_le by fastforce
  ultimately show ?thesis using n r by simp
qed

lemma run_bound: "match_run P [c] t = Some (n, r) \<Longrightarrow> length r \<le> n \<and> n \<le> length t"
  by (auto simp: match_run_def Let_def length_takeWhile_le split: if_splits)

lemma length_trim_le: "length (trim s) \<le> length s"
proof -
  have "length (trim s) \<le> length (dropWhile is_space s)"
    unfolding trim_def using length_dropWhile_le [of is_space "rev (dropWhile is_space s)"] by simp
  also have "\<dots> \<le> length s" by (rule length_dropWhile_le)
  finally show ?thesis .
qed

lemma pass_fixed:
  assumes "\<And>t n r. m t = Some (n, r) \<Longrightarrow> length r < n \<and> n \<le> length t"
    and "length s \<le> length (replace_all m s)"
  shows "\<not> matches_in m s \<and> replace_all m s = s"
proof -
  have "\<not> matches_in m s"
    using length_replace_all_less [of m s] assms by fastforce
  then show ?thesis by (simp add: replace_all_no_match)
qed

lemma le_of_less_bound:
  assumes "\<And>t n r. m t = Some (n, r) \<Longrightarrow> length r < n \<and> n \<le> length t"
  shows "length (replace_all m s) \<le> length s"
  by (rule length_replace_all_le) (use assms in \<open>meson less_imp_le\<close>)

lemma has_markdown_iff:
  "has_markdown s \<longleftrightarrow>
     matches_in match_header s \<or> matches_in (match_wrapped ''**'' (CHR ''*'')) s \<or>
     matches_in (match_wrapped ''*'' (CHR ''*'')) s \<or> matches_in (match_wrapped ''`'' (CHR ''`'')) s \<or>
     matches_in match_code_block s \<or> matches_in match_link s \<or> matches_in match_image s"
  by (simp add: has_markdown_def markdown_patterns_def)

text \<open>
  Claim C9, as the code has it: stripping a second time changes nothing exactly when none of
  the seven markdown expressions has a match left in the stripped text. A character \<open>#\<close>,
  \<open>*\<close>, \<open>[\<close> or a backquote that starts no match does no harm.
\<close>

theorem strip_idempotent_boundary:
  "strip_markdown (strip_markdown x) = strip_markdown x \<longleftrightarrow> \<not> has_markdown (strip_markdown x)"
proof
  let ?y = "strip_markdown x"
  assume nm: "\<not> has_markdown ?y"
  obtain z where y: "?y = trim (replace_all (match_run is_space '' '') z)"
    by (simp add: strip_markdown_def)
  have ss: "single_spaced ?y"
    unfolding y by (rule single_spaced_trim) (rule single_spaced_collapse)
  have passes:
    "replace_all match_image
      (replace_all match_link
      (replace_all match_code_block
      (replace_all (match_wrapped ''`'' (CHR ''`''))
      (replace_all (match_wrapped ''*'' (CHR ''*''))
      (replace_all (match_wrapped ''**'' (CHR ''*''))
      (replace_all match_header ?y)))))) = ?y"
    using nm by (simp add: has_markdown_iff replace_all_no_match)
  have "strip_markdown ?y =
          trim (replace_all (match_run is_space '' '')
                 (replace_all (match_run (\<lambda>c. c = CHR 0x0A) '' '') ?y))"
    by (subst strip_markdown_def) (simp only: passes)
  also have "\<dots> = trim ?y"
    using ss by (simp add: single_spaced_newlines single_spaced_run)
  also have "\<dots> = ?y"
    unfolding y by (rule trim_idem)
  finally show "strip_markdown ?y = ?y" .
next
  let ?y = "strip_markdown x"
  let ?s1 = "replace_all match_header ?y"
  let ?s2 = "replace_all (match_wrapped ''**'' (CHR ''*'')) ?s1"
  let ?s3 = "replace_all (match_wrapped ''*'' (CHR ''*'')) ?s2"
  let ?s4 = "replace_all (match_wrapped ''`'' (CHR ''`'')) ?s3"
  let ?s5 = "replace_all match_code_block ?s4"
  let ?s6 = "replace_all match_link ?s5"
  let ?s7 = "replace_all match_image ?s6"
  let ?s8 = "replace_all (match_run (\<lambda>c. c = CHR 0x0A) '' '') ?s7"
  let ?s9 = "replace_all (match_run is_space '' '') ?s8"
  assume "strip_markdown ?y = ?y"
  then have "length ?y = length (trim ?s9)" by (simp add: strip_markdown_def)
  also have "\<dots> \<le> length ?s9" by (rule length_trim_le)
  also have "\<dots> \<le> length ?s8" by (rule length_replace_all_le) (rule run_bound)
  also have "\<dots> \<le> length ?s7" by (rule length_replace_all_le) (rule run_bound)
  finally have l7: "length ?y \<le> length ?s7" .
  have star2: "''**'' \<noteq> []" and star: "''*'' \<noteq> []" and quote: "''`'' \<noteq> []" by simp_all
  have "length ?s7 \<le> length ?s6" by (rule le_of_less_bound) (rule image_bound)
  with l7 have l6: "length ?y \<le> length ?s6" by simp
  have "length ?s6 \<le> length ?s5" by (rule le_of_less_bound) (rule link_bound)
  with l6 have l5: "length ?y \<le> length ?s5" by simp
  have "length ?s5 \<le> length ?s4" by (rule le_of_less_bound) (rule code_block_bound)
  with l5 have l4: "length ?y \<le> length ?s4" by simp
  have "length ?s4 \<le> length ?s3" by (rule le_of_less_bound) (rule wrapped_bound [OF quote])
  with l4 have l3: "length ?y \<le> length ?s3" by simp
  have "length ?s3 \<le> length ?s2" by (rule le_of_less_bound) (rule wrapped_bound [OF star])
  with l3 have l2: "length ?y \<le> length ?s2" by simp
  have "length ?s2 \<le> length ?s1" by (rule le_of_less_bound) (rule wrapped_bound [OF star2])
  with l2 have l1: "length ?y \<le> length ?s1" by simp
  have p1: "\<not> matches_in match_header ?y \<and> ?s1 = ?y"
    by (rule pass_fixed) (rule header_bound, assumption, rule l1)
  have "length ?y \<le> length (replace_all (match_wrapped ''**'' (CHR ''*'')) ?y)"
    using l2 p1 by simp
  then have "\<not> matches_in (match_wrapped ''**'' (CHR ''*'')) ?y
             \<and> replace_all (match_wrapped ''**'' (CHR ''*'')) ?y = ?y"
    by (intro pass_fixed wrapped_bound [OF star2])
  with p1 have p2: "\<not> matches_in (match_wrapped ''**'' (CHR ''*'')) ?y \<and> ?s2 = ?y" by simp
  have "length ?y \<le> length (replace_all (match_wrapped ''*'' (CHR ''*'')) ?y)"
    using l3 p2 by simp
  then have "\<not> matches_in (match_wrapped ''*'' (CHR ''*'')) ?y
             \<and> replace_all (match_wrapped ''*'' (CHR ''*'')) ?y = ?y"
    by (intro pass_fixed wrapped_bound [OF star])
  with p2 have p3: "\<not> matches_in (match_wrapped ''*'' (CHR ''*'')) ?y \<and> ?s3 = ?y" by simp
  have "length ?y \<le> length (replace_all (match_wrapped ''`'' (CHR ''`'')) ?y)"
    using l4 p3 by simp
  then have "\<not> matches_in (match_wrapped ''`'' (CHR ''`'')) ?y
             \<and> replace_all (match_wrapped ''`'' (CHR ''`'')) ?y = ?y"
    by (intro pass_fixed wrapped_bound [OF quote])
  with p3 have p4: "\<not> matches_in (match_wrapped ''`'' (CHR ''`'')) ?y \<and> ?s4 = ?y" by simp
  have "length ?y \<le> length (replace_all match_code_block ?y)"
    using l5 p4 by simp
  then have "\<not> matches_in match_code_block ?y \<and> replace_all match_code_block ?y = ?y"
    by (intro pass_fixed code_block_bound)
  with p4 have p5: "\<not> matches_in match_code_block ?y \<and> ?s5 = ?y" by simp
  have "length ?y \<le> length (replace_all match_link ?y)"
    using l6 p5 by simp
  then have "\<not> matches_in match_link ?y \<and> replace_all match_link ?y = ?y"
    by (intro pass_fixed link_bound)
  with p5 have p6: "\<not> matches_in match_link ?y \<and> ?s6 = ?y" by simp
  have "length ?y \<le> length (replace_all match_image ?y)"
    using l7 p6 by simp
  then have "\<not> matches_in match_image ?y \<and> replace_all match_image ?y = ?y"
    by (intro pass_fixed image_bound)
  with p6 have p7: "\<not> matches_in match_image ?y \<and> ?s7 = ?y" by simp
  from p1 p2 p3 p4 p5 p6 p7 show "\<not> has_markdown ?y" by (simp add: has_markdown_iff)
qed

text \<open>The theorem at a text whose stripped form keeps \<open>[\<close>, \<open>*\<close> and \<open>#\<close>, none of which starts
  a match.\<close>

theorem strip_idempotent_boundary_witness:
  "strip_markdown ''# Note: **arr[0]** = 2*3 in C#x'' = ''Note: arr[0] = 2*3 in C#x''
   \<and> \<not> has_markdown (strip_markdown ''# Note: **arr[0]** = 2*3 in C#x'')
   \<and> strip_markdown (strip_markdown ''# Note: **arr[0]** = 2*3 in C#x'') =
       strip_markdown ''# Note: **arr[0]** = 2*3 in C#x''"
proof -
  have v: "strip_markdown ''# Note: **arr[0]** = 2*3 in C#x'' = ''Note: arr[0] = 2*3 in C#x''"
    by code_simp
  have h: "\<not> has_markdown (strip_markdown ''# Note: **arr[0]** = 2*3 in C#x'')"
    by code_simp
  from v h strip_idempotent_boundary [of "''# Note: **arr[0]** = 2*3 in C#x''"]
  show ?thesis by blast
qed

text \<open>
  Claim C9 as the specification states it fails: the bold pass turns \<open>****a****\<close> into
  \<open>**a**\<close>, the italic pass turns that into \<open>*a*\<close>, which is the result; stripped again
  it is \<open>a\<close>.
\<close>

theorem strip_not_idempotent:
  "strip_markdown ''****a****'' = ''*a*'' \<and>
   strip_markdown (strip_markdown ''****a****'') = ''a'' \<and>
   strip_markdown (strip_markdown ''****a****'') \<noteq> strip_markdown ''****a****''"
proof -
  have 1: "strip_markdown ''****a****'' = ''*a*''" by code_simp
  have 2: "strip_markdown ''*a*'' = ''a''" by code_simp
  from 1 2 show ?thesis by simp
qed

text \<open>
  Claim C4 at inputs where it fails. The pass for inline code runs before the pass for
  fenced blocks and unwraps the fence's third backquote with the whole block, so no fence
  is left for the later pass and the content of the block stays in the snippet. In the same
  way the pass for links runs before the pass for images and leaves \<open>!\<close> and the alternative
  text of an image.
\<close>

theorem code_block_survives:
  "createSnippet ''```js\<newline>secret\<newline>```'' ''secret'' 150 =
     \<lparr>snippet = ''``js secret ``'', anchor = None\<rparr> \<and>
   createSnippet_lead ''```js\<newline>secret\<newline>```'' 150 = ''``js secret ``'' \<and>
   strip_markdown ''![alt](i.png)'' = ''!alt''"
  by code_simp

section \<open>Properties of anchors\<close>

lemma takeWhile_replicate_append:
  "ys = [] \<or> \<not> P (hd ys) \<Longrightarrow> list_all P xs \<Longrightarrow> takeWhile P (xs @ ys) = xs"
  by (induction xs) (auto simp: takeWhile_eq_Nil_iff)

lemma dropWhile_replicate_append:
  "ys = [] \<or> \<not> P (hd ys) \<Longrightarrow> list_all P xs \<Longrightarrow> dropWhile P (xs @ ys) = ys"
  by (induction xs) (auto simp: dropWhile_eq_self_iff)

text \<open>
  \<open>heading_match16\<close> accepts the lines of the language of \<open>/^(#{1,6})\s+(.+)$/\<close> and no
  others: one to six \<open>#\<close>, then whitespace, then a non-empty rest without line terminator.
\<close>

lemma heading_match16_sound:
  assumes "heading_match16 line = Some g"
  shows "\<exists>k ws. 1 \<le> k \<and> k \<le> 6 \<and> line = replicate k (of_char (CHR ''#'')) @ ws @ g
           \<and> ws \<noteq> [] \<and> list_all is_space16 ws
           \<and> g \<noteq> [] \<and> \<not> list_ex line_terminator16 g"
proof -
  define k where "k = length (takeWhile (\<lambda>c. c = of_char (CHR ''#'')) line)"
  define tail where "tail = drop k line"
  define ws where "ws = takeWhile is_space16 tail"
  define rest where "rest = dropWhile is_space16 tail"
  have "\<forall>y\<in>set (takeWhile (\<lambda>c. c = of_char (CHR ''#'')) line). y = of_char (CHR ''#'')"
    by (auto dest: set_takeWhileD)
  then have "replicate (length (takeWhile (\<lambda>c. c = of_char (CHR ''#'')) line)) (of_char (CHR ''#'')) =
      takeWhile (\<lambda>c. c = of_char (CHR ''#'')) line"
    by (rule replicate_length_same)
  then have hashes: "takeWhile (\<lambda>c. c = of_char (CHR ''#'')) line = replicate k (of_char (CHR ''#''))"
    unfolding k_def by (rule sym)
  have "tail = dropWhile (\<lambda>c. c = of_char (CHR ''#'')) line"
    by (simp add: tail_def k_def dropWhile_eq_drop)
  then have "takeWhile (\<lambda>c. c = of_char (CHR ''#'')) line @ tail = line" by simp
  then have line: "line = replicate k (of_char (CHR ''#'')) @ tail"
    by (simp only: hashes)
  have tail: "tail = ws @ rest" by (simp add: ws_def rest_def)
  have spaces: "list_all is_space16 ws"
    unfolding ws_def list_all_iff by (auto dest: set_takeWhileD)
  from assms have k: "1 \<le> k" "k \<le> 6" and ws: "ws \<noteq> []"
    by (auto simp: heading_match16_def Let_def k_def tail_def ws_def split: if_splits)
  show ?thesis
  proof (cases "rest = []")
    case False
    with assms have "g = rest" "\<not> list_ex line_terminator16 rest"
      by (auto simp: heading_match16_def Let_def k_def tail_def ws_def rest_def split: if_splits)
    with k ws spaces line tail False show ?thesis by auto
  next
    case True
    with assms have g: "g = [last ws]" and two: "2 \<le> length ws" and nt: "\<not> line_terminator16 (last ws)"
      by (auto simp: heading_match16_def Let_def k_def tail_def ws_def rest_def split: if_splits)
    have "ws = butlast ws @ [last ws]" using ws by simp
    with True tail have "line = replicate k (of_char (CHR ''#'')) @ butlast ws @ g"
      using line g by simp
    moreover have "butlast ws \<noteq> []" using two by (cases ws) (auto split: if_splits)
    moreover have "list_all is_space16 (butlast ws)"
      using spaces by (auto simp: list_all_iff dest: in_set_butlastD)
    ultimately show ?thesis using k g nt by auto
  qed
qed

lemma heading_match16_complete:
  assumes "1 \<le> k" "k \<le> 6" "line = replicate k (of_char (CHR ''#'')) @ ws @ g"
      and "ws \<noteq> []" "list_all is_space16 ws" "g \<noteq> []" "\<not> list_ex line_terminator16 g"
  shows "heading_match16 line \<noteq> None"
proof -
  have hd_ws: "is_space16 (hd ws)" using assms(4,5) by (cases ws) auto
  then have "hd (ws @ g) \<noteq> of_char (CHR ''#'')" using assms(4) by (auto simp: is_space16_def)
  then have nohash: "ws @ g = [] \<or> \<not> (\<lambda>c. c = of_char (CHR ''#'')) (hd (ws @ g))" by simp
  have allhash: "list_all (\<lambda>c. c = of_char (CHR ''#'')) (replicate k (of_char (CHR ''#'')))"
    by (simp add: list_all_iff)
  have tw: "takeWhile (\<lambda>c. c = of_char (CHR ''#'')) line = replicate k (of_char (CHR ''#''))"
    unfolding assms(3) by (rule takeWhile_replicate_append [OF nohash allhash])
  then have len: "length (takeWhile (\<lambda>c. c = of_char (CHR ''#'')) line) = k" by simp
  have tail: "drop k line = ws @ g" by (simp add: assms(3))
  define sp where "sp = takeWhile is_space16 g"
  define rest where "rest = dropWhile is_space16 g"
  have g: "g = sp @ rest" by (simp add: sp_def rest_def)
  have rest_hd: "rest = [] \<or> \<not> is_space16 (hd rest)"
    unfolding rest_def using hd_dropWhile [of is_space16 g] by auto
  have all_sp: "list_all is_space16 (ws @ sp)"
    using assms(5) by (auto simp: list_all_iff sp_def dest: set_takeWhileD)
  have t: "takeWhile is_space16 (ws @ g) = ws @ sp"
    using takeWhile_replicate_append [OF rest_hd all_sp] by (simp add: g)
  have d: "dropWhile is_space16 (ws @ g) = rest"
    using dropWhile_replicate_append [OF rest_hd all_sp] by (simp add: g)
  have noterm: "\<not> list_ex line_terminator16 rest" "\<not> list_ex line_terminator16 sp"
    using assms(7) g by (auto simp: list_ex_iff)
  show ?thesis
  proof (cases "rest = []")
    case False
    with noterm(1) assms(1,2,4) show ?thesis
      by (simp add: heading_match16_def Let_def len [simplified] tail t d)
  next
    case True
    with g assms(6) have sp: "sp \<noteq> []" by simp
    then have "last (ws @ sp) = last sp" by simp
    moreover have "\<not> line_terminator16 (last sp)"
      using noterm(2) sp by (auto simp: list_ex_iff)
    moreover have "2 \<le> length (ws @ sp)"
      using assms(4) sp by (cases ws; cases sp) auto
    ultimately show ?thesis using True assms(1,2,4)
      by (simp add: heading_match16_def Let_def len [simplified] tail t d)
  qed
qed

lemma line_offset_0: "line_offset ls 0 = 0"
  by (simp add: line_offset_def)

lemma line_offset_Suc: "line_offset (l # ls) (Suc k) = length l + 1 + line_offset ls k"
  by (simp add: line_offset_def)








lemma split_on_nonempty: "split_on d s \<noteq> []"
  by (induction s) (auto split: list.splits)

lemma line_offset_pos: "0 < k \<Longrightarrow> ls \<noteq> [] \<Longrightarrow> 0 < line_offset ls k"
  by (cases ls; cases k) (simp_all add: line_offset_def)

text \<open>\<open>line_offset\<close> is where the line stands in the text: the line is read there, a line
  feed stands before it unless it is the first, and there is no line feed in it.\<close>

lemma line_offset_correct:
  "k < length (split_on d s) \<Longrightarrow>
     take (length (split_on d s ! k)) (drop (line_offset (split_on d s) k) s) = split_on d s ! k
     \<and> (0 < k \<longrightarrow> s ! (line_offset (split_on d s) k - 1) = d)
     \<and> d \<notin> set (split_on d s ! k)"
proof (induction s arbitrary: k)
  case Nil
  then show ?case by (simp add: line_offset_def)
next
  case (Cons c cs)
  show ?case
  proof (cases "c = d")
    case True
    show ?thesis
    proof (cases k)
      case 0
      with True show ?thesis by (simp add: line_offset_0)
    next
      case (Suc k')
      with True Cons.prems have k': "k' < length (split_on d cs)" by simp
      have "0 < k' \<Longrightarrow> 0 < line_offset (split_on d cs) k'"
        by (rule line_offset_pos) (simp_all add: split_on_nonempty)
      with Cons.IH [OF k'] True Suc show ?thesis
        by (cases k') (auto simp: line_offset_Suc line_offset_0 nth_Cons')
    qed
  next
    case False
    obtain l ls where sp: "split_on d cs = l # ls"
      using split_on_nonempty [of d cs] by (cases "split_on d cs") auto
    show ?thesis
    proof (cases k)
      case 0
      have "0 < length (split_on d cs)" using sp by simp
      from Cons.IH [OF this] sp False 0 show ?thesis by (simp add: line_offset_0)
    next
      case (Suc k')
      with False sp Cons.prems have k': "Suc k' < length (split_on d cs)" by simp
      from Cons.IH [OF k'] sp False Suc show ?thesis
        by (simp add: line_offset_Suc)
    qed
  qed
qed

text \<open>
  \<open>indexOf\<close> gives the first place at which the term stands. Where lower-casing keeps the
  places of the text, the offset that \<open>createSnippet\<close> takes in the lower-cased text is the
  first offset of the text itself at which the term stands when case is ignored.
\<close>

lemma indexOf_first:
  "indexOf s t = Some i \<longleftrightarrow>
     i \<le> length s \<and> prefix t (drop i s) \<and> (\<forall>k<i. \<not> prefix t (drop k s))"
proof (induction s arbitrary: i)
  case Nil
  then show ?case by auto
next
  case (Cons c cs)
  show ?case
  proof (cases "prefix t (c # cs)")
    case True
    then have "indexOf (c # cs) t = Some i \<longleftrightarrow> i = 0" by auto
    moreover have "i = 0 \<longleftrightarrow> i \<le> length (c # cs) \<and> prefix t (drop i (c # cs))
        \<and> (\<forall>k<i. \<not> prefix t (drop k (c # cs)))"
      using True by (cases i) auto
    ultimately show ?thesis by simp
  next
    case False
    show ?thesis
    proof (cases i)
      case 0
      with False show ?thesis by simp
    next
      case (Suc j)
      have "(\<forall>k<Suc j. \<not> prefix t (drop k (c # cs))) \<longleftrightarrow> (\<forall>k<j. \<not> prefix t (drop k cs))"
        using False by (auto simp: less_Suc_eq_0_disj)
      with False Suc Cons.IH [of j] show ?thesis by auto
    qed
  qed
qed

lemma find_upt_Some:
  "find P [0..<m] = Some i \<longleftrightarrow> i < m \<and> P i \<and> (\<forall>k<i. \<not> P k)"
proof -
  have "find P [0..<m] = Some i \<longleftrightarrow>
        (\<exists>j<length [0..<m]. P ([0..<m] ! j) \<and> i = [0..<m] ! j \<and> (\<forall>k<j. \<not> P ([0..<m] ! k)))"
    by (rule find_Some_iff)
  also have "\<dots> \<longleftrightarrow> i < m \<and> P i \<and> (\<forall>k<i. \<not> P k)"
    by auto
  finally show ?thesis .
qed

lemma indexOf_first_occurrence:
  assumes "keeps_places lower content"
  shows "indexOf (lower content) (lower searchTerm) = first_occurrence lower content searchTerm"
proof -
  from assms have len: "length (lower content) = length content"
    and places: "\<And>k. k \<le> length content \<Longrightarrow> lower (drop k content) = drop k (lower content)"
    by (auto simp: keeps_places_def list_all_iff)
  have iff: "indexOf (lower content) (lower searchTerm) = Some i \<longleftrightarrow>
             first_occurrence lower content searchTerm = Some i" for i
  proof -
    have "indexOf (lower content) (lower searchTerm) = Some i \<longleftrightarrow>
          i \<le> length content \<and> prefix (lower searchTerm) (drop i (lower content))
          \<and> (\<forall>k<i. \<not> prefix (lower searchTerm) (drop k (lower content)))"
      by (simp add: indexOf_first len)
    also have "\<dots> \<longleftrightarrow> i \<le> length content \<and> occurs_at lower content searchTerm i
          \<and> (\<forall>k<i. \<not> occurs_at lower content searchTerm k)"
      using places by (auto simp: occurs_at_def)
    also have "\<dots> \<longleftrightarrow> first_occurrence lower content searchTerm = Some i"
      by (auto simp: first_occurrence_def find_upt_Some simp del: upt_Suc)
    finally show ?thesis .
  qed
  show ?thesis
  proof (cases "first_occurrence lower content searchTerm")
    case None
    with iff show ?thesis by (cases "indexOf (lower content) (lower searchTerm)") auto
  next
    case (Some i)
    with iff show ?thesis by simp
  qed
qed

text \<open>Lower-casing that works unit by unit keeps the places of every text.\<close>

lemma keeps_places_map: "keeps_places (map f) content"
  by (simp add: keeps_places_def list_all_iff drop_map)

text \<open>
  The last step of \<open>generateSlug\<close>, \<open>trim()\<close>, changes nothing: after the whitespace runs
  have been replaced no whitespace is left. The id of the specification is therefore the id
  of the code without the \<open>-\<close> at its two ends.
\<close>

lemma replace_all_run_set:
  "set (replace_all (match_run P r) s) \<subseteq> {c \<in> set s. \<not> P c} \<union> set r"
proof (induction s rule: length_induct)
  case (1 s)
  show ?case
  proof (cases s)
    case Nil
    then show ?thesis by simp
  next
    case (Cons c cs)
    show ?thesis
    proof (cases "P c")
      case True
      have "length (dropWhile P cs) < length s"
        using Cons by (simp add: le_imp_less_Suc length_dropWhile_le)
      with 1 have "set (replace_all (match_run P r) (dropWhile P cs))
                     \<subseteq> {c \<in> set (dropWhile P cs). \<not> P c} \<union> set r"
        by blast
      moreover have "set (dropWhile P cs) \<subseteq> set cs" by (rule set_dropWhileD [THEN subsetI])
      ultimately show ?thesis using True Cons by (auto simp: replace_all_run_Cons)
    next
      case False
      have "set (replace_all (match_run P r) cs) \<subseteq> {c \<in> set cs. \<not> P c} \<union> set r"
        using 1 Cons by simp
      with False Cons show ?thesis by (auto simp: replace_all_run_Cons)
    qed
  qed
qed

lemma dropWhile_none: "\<forall>c\<in>set s. \<not> P c \<Longrightarrow> dropWhile P s = s"
  by (cases s) simp_all

lemma trim16_no_space:
  assumes "\<forall>c\<in>set s. \<not> is_space16 c"
  shows "trim16 s = s"
proof -
  have "dropWhile is_space16 s = s" using assms by (rule dropWhile_none)
  moreover have "dropWhile is_space16 (rev s) = rev s"
    by (rule dropWhile_none) (use assms in simp)
  ultimately show ?thesis by (simp add: trim16_def)
qed

lemma dash_no_space: "\<not> is_space16 (of_char (CHR ''-''))"
  by (simp add: is_space16_def)

lemma generateSlug16_trim_dead:
  "generateSlug16 lower text' =
     replace_all (match_run (\<lambda>c. c = of_char (CHR ''-'')) (utf16 ''-''))
       (replace_all (match_run is_space16 (utf16 ''-''))
         (filter slug_char16 (lower text')))"
proof -
  let ?a = "replace_all (match_run is_space16 (utf16 ''-'')) (filter slug_char16 (lower text'))"
  let ?b = "replace_all (match_run (\<lambda>c. c = of_char (CHR ''-'')) (utf16 ''-'')) ?a"
  have a: "\<forall>c\<in>set ?a. \<not> is_space16 c"
    using replace_all_run_set [of is_space16 "utf16 ''-''" "filter slug_char16 (lower text')"]
    by (auto simp: utf16_def dash_no_space [simplified])
  have "set ?b \<subseteq> {c \<in> set ?a. c \<noteq> of_char (CHR ''-'')} \<union> set (utf16 ''-'')"
    by (rule replace_all_run_set)
  with a have "\<forall>c\<in>set ?b. \<not> is_space16 c"
    by (auto simp: utf16_def dash_no_space [simplified])
  then have "trim16 ?b = ?b" by (rule trim16_no_space)
  then show ?thesis by (simp add: generateSlug16_def)
qed

lemma spec_generateSlug16_code:
  "spec_generateSlug16 lower text' = strip_dashes16 (generateSlug16 lower text')"
  by (simp only: spec_generateSlug16_def generateSlug16_trim_dead)




text \<open>
  Where the id that the code computes has a \<open>-\<close> at an end, it is not the id of the
  specification: the last step of \<open>generateSlug\<close> is \<open>trim()\<close>, which removes whitespace, of
  which none is left, and no \<open>-\<close>. A heading \<open># - foo\<close> before the match gives the anchor
  \<open>-foo\<close>.
\<close>

lemma anchor_keeps_dash:
  "anchor16 (createSnippet16 lower_sample (utf16 ''# - foo\<newline>bar'') (utf16 ''bar'') 150)
     = Some (utf16 ''-foo'')
   \<and> spec_generateSlug16 lower_sample (utf16 ''- foo'') = utf16 ''foo''"
  by code_simp

text \<open>
  Where lower-casing moves the match, the offset that the code takes is no offset of the
  text. Five times U+0130, then \<open>x\<close>, and a heading \<open># H\<close> on the next line, at offset 7:
  \<open>x\<close> stands at offset 5 of the text, before the heading, and at offset 10 of the
  lower-cased text, so that the code counts the heading as one before the match and gives
  the anchor \<open>h\<close>.
\<close>

lemma anchor_where_lower_casing_lengthens:
  "first_occurrence lower_sample (replicate 5 0x130 @ utf16 ''x\<newline># H\<newline>body'') (utf16 ''x'')
     = Some 5
   \<and> indexOf (lower_sample (replicate 5 0x130 @ utf16 ''x\<newline># H\<newline>body''))
         (lower_sample (utf16 ''x'')) = Some 10
   \<and> heading_lines16 (replicate 5 0x130 @ utf16 ''x\<newline># H\<newline>body'') = [(7, utf16 ''H'')]
   \<and> anchor16 (createSnippet16 lower_sample
        (replicate 5 0x130 @ utf16 ''x\<newline># H\<newline>body'') (utf16 ''x'') 150)
       = Some (utf16 ''h'')"
  by code_simp

text \<open>In the text of the first example, \<open>foo\<close> and \<open>A\<close> have the anchor \<open>a\<close>; and on that
  text the snippet and the anchor are those of \<open>createSnippet\<close> on Latin-1 text.\<close>

lemma anchor_example:
  "anchor16 (createSnippet16 lower_sample (utf16 ''# A\<newline>foo\<newline>## B\<newline>bar baz'') (utf16 ''foo'') 150)
     = Some (utf16 ''a'')
   \<and> anchor16 (createSnippet16 lower_sample (utf16 ''# A\<newline>foo\<newline>## B\<newline>bar baz'') (utf16 ''A'') 150)
     = Some (utf16 ''a'')
   \<and> snippet16 (createSnippet16 lower_sample (utf16 ''# A\<newline>foo\<newline>## B\<newline>bar baz'') (utf16 ''baz'') 150)
     = utf16 (snippet (createSnippet ''# A\<newline>foo\<newline>## B\<newline>bar baz'' ''baz'' 150))
   \<and> anchor16 (createSnippet16 lower_sample (utf16 ''# A\<newline>foo\<newline>## B\<newline>bar baz'') (utf16 ''baz'') 150)
     = map_option utf16 (anchor (createSnippet ''# A\<newline>foo\<newline>## B\<newline>bar baz'' ''baz'' 150))"
  by code_simp

section \<open>Properties of keyword search\<close>

lemma two_ranks_partition:
  fixes f :: "'a \<Rightarrow> nat"
  assumes "sorted (map f ys)" and "\<And>y. f y \<le> 1"
  shows "ys = filter (\<lambda>y. f y = 0) ys @ filter (\<lambda>y. f y \<noteq> 0) ys"
  using assms(1)
proof (induction ys)
  case Nil
  then show ?case by simp
next
  case (Cons y ys)
  then have ih: "ys = filter (\<lambda>y. f y = 0) ys @ filter (\<lambda>y. f y \<noteq> 0) ys" by simp
  show ?case
  proof (cases "f y = 0")
    case True
    with ih show ?thesis by simp
  next
    case False
    from Cons.prems have "\<forall>z\<in>set ys. f y \<le> f z" by simp
    with False have "\<forall>z\<in>set ys. f z \<noteq> 0" by auto
    then have "filter (\<lambda>y. f y = 0) ys = []" "filter (\<lambda>y. f y \<noteq> 0) ys = ys"
      by (simp_all add: filter_empty_conv)
    with False show ?thesis by simp
  qed
qed

lemma sort_results_partition:
  "sort_results query rs =
     filter (in_title query) rs @ filter (\<lambda>r. \<not> in_title query r) rs"
proof -
  let ?f = "title_rank query"
  let ?s = "sort_key ?f rs"
  have "sorted (map ?f ?s)" by (rule sorted_sort_key)
  moreover have "?f y \<le> 1" for y by (simp add: title_rank_def)
  ultimately have "?s = filter (\<lambda>y. ?f y = 0) ?s @ filter (\<lambda>y. ?f y \<noteq> 0) ?s"
    by (rule two_ranks_partition)
  moreover have "filter (\<lambda>y. ?f y = 0) ?s = filter (\<lambda>y. ?f y = 0) rs"
    by (rule sort_key_stable)
  moreover have "filter (\<lambda>y. ?f y \<noteq> 0) ?s = filter (\<lambda>y. ?f y = 1) ?s"
    by (rule filter_cong) (auto simp: title_rank_def)
  moreover have "filter (\<lambda>y. ?f y = 1) ?s = filter (\<lambda>y. ?f y = 1) rs"
    by (rule sort_key_stable)
  moreover have "(\<lambda>y. ?f y = 0) = in_title query" "(\<lambda>y. ?f y = 1) = (\<lambda>r. \<not> in_title query r)"
    by (auto simp: title_rank_def)
  ultimately show ?thesis by (simp add: sort_results_def)
qed

lemma partition_order:
  assumes "res = take n (filter P rs @ filter (\<lambda>r. \<not> P r) rs)"
      and "i < length res" "j < length res" "P (res ! i)" "\<not> P (res ! j)"
  shows "i < j"
proof (rule ccontr)
  assume "\<not> i < j"
  then have ji: "j \<le> i" by simp
  let ?a = "filter P rs" and ?b = "filter (\<lambda>r. \<not> P r) rs"
  have ri: "res ! i = (?a @ ?b) ! i" and rj: "res ! j = (?a @ ?b) ! j"
    using assms(1,2,3) by (simp_all del: take_append)
  have li: "i < length (?a @ ?b)" and lj: "j < length (?a @ ?b)"
    using assms(1,2,3) by (simp_all del: take_append)
  have "j < length ?a"
  proof (rule ccontr)
    assume "\<not> j < length ?a"
    with ji have "\<not> i < length ?a" by simp
    then have "(?a @ ?b) ! i = ?b ! (i - length ?a)" by (simp add: nth_append)
    moreover have "i - length ?a < length ?b" using li \<open>\<not> i < length ?a\<close> by simp
    then have "?b ! (i - length ?a) \<in> set ?b" by (rule nth_mem)
    ultimately show False using assms(4) ri by simp
  qed
  then have "?a ! j \<in> set ?a" by (rule nth_mem)
  moreover have "(?a @ ?b) ! j = ?a ! j" using \<open>j < length ?a\<close> by (simp add: nth_append)
  ultimately have "P (res ! j)" using rj by simp
  with assms(5) show False by simp
qed

lemma title_posts_listed:
  "r \<in> set (title_posts ps seen) \<Longrightarrow>
     r_type r = Post \<and> (\<exists>p \<in> set ps. doc_id p = r_id r \<and> \<not> flag (unlisted p))"
  by (induction ps seen rule: title_posts.induct) (auto split: if_splits)

lemma title_pages_type: "r \<in> set (title_pages ps seen) \<Longrightarrow> r_type r = Page"
  by (induction ps seen rule: title_pages.induct) (auto split: if_splits)

lemma searchTitleOnly_listed:
  assumes "r \<in> set (searchTitleOnly ctx query)"
  shows "listed_source ctx query r"
proof -
  from assms have nonempty: "trim query \<noteq> []"
    by (auto simp: searchTitleOnly_def split: if_splits)
  with assms have "r \<in> set (sort_results query
        (title_posts (take 10 (search_title_posts ctx query)) [] @
         title_pages (take 10 (search_title_pages ctx query)) []))"
    by (auto simp: searchTitleOnly_def Let_def dest: in_set_takeD)
  then have "r \<in> set (title_posts (take 10 (search_title_posts ctx query)) [])
           \<or> r \<in> set (title_pages (take 10 (search_title_pages ctx query)) [])"
    by (simp add: sort_results_def)
  then show ?thesis
  proof
    assume "r \<in> set (title_posts (take 10 (search_title_posts ctx query)) [])"
    from title_posts_listed [OF this] show ?thesis
      by (auto simp: listed_source_def dest: in_set_takeD)
  next
    assume "r \<in> set (title_pages (take 10 (search_title_pages ctx query)) [])"
    from title_pages_type [OF this] show ?thesis by (simp add: listed_source_def)
  qed
qed

lemma content_step_results:
  assumes "r \<in> set (results (content_step e net query kind getBySlug doc st))"
  shows "r \<in> set (results st)
       \<or> (r_type r = kind \<and> r_id r = doc_id doc \<and> (kind = Post \<longrightarrow> \<not> flag (unlisted doc)))"
  using assms
  by (auto simp: content_step_def Let_def split: if_splits option.splits sum.splits prod.splits)

lemma content_loop_results:
  assumes "r \<in> set (results (content_loop e net query kind getBySlug docs st))"
  shows "r \<in> set (results st)
       \<or> (r_type r = kind \<and>
           (\<exists>d \<in> set docs. r_id r = doc_id d \<and> (kind = Post \<longrightarrow> \<not> flag (unlisted d))))"
  using assms
proof (induction docs arbitrary: st)
  case Nil
  then show ?case by simp
next
  case (Cons d docs)
  from Cons.prems have "r \<in> set (results (content_loop e net query kind getBySlug docs
        (content_step e net query kind getBySlug d st)))" by simp
  from Cons.IH [OF this] show ?case
    using content_step_results [of r e net query kind getBySlug d st] by auto
qed

lemma search_collect_listed:
  assumes "r \<in> set (results (search_collect ctx e net query reqs))"
  shows "listed_source ctx query r"
proof -
  let ?st0 = "\<lparr>results = searchTitleOnly ctx query,
               addedIds = rev (map r_id (searchTitleOnly ctx query)), requests = reqs\<rparr>"
  let ?st1 = "content_loop e net query Post (getPostBySlug ctx) (getAllPosts ctx) ?st0"
  from assms have "r \<in> set (results (content_loop e net query Page (getPageBySlug ctx)
      (getAllPages ctx) ?st1))"
    by (simp add: search_collect_def Let_def)
  from content_loop_results [OF this] show ?thesis
  proof
    assume "r \<in> set (results ?st1)"
    from content_loop_results [OF this] show ?thesis
    proof
      assume "r \<in> set (results ?st0)"
      then show ?thesis by (simp add: searchTitleOnly_listed)
    next
      assume "r_type r = Post \<and>
        (\<exists>d\<in>set (getAllPosts ctx). r_id r = doc_id d \<and> (Post = Post \<longrightarrow> \<not> flag (unlisted d)))"
      then show ?thesis by (auto simp: listed_source_def)
    qed
  next
    assume "r_type r = Page \<and>
      (\<exists>d\<in>set (getAllPages ctx). r_id r = doc_id d \<and> (Page = Post \<longrightarrow> \<not> flag (unlisted d)))"
    then show ?thesis by (simp add: listed_source_def)
  qed
qed

text \<open>
  Claim C5. The list \<open>search\<close> returns is the first fifteen of the results found, those whose
  title includes the query (both lower-cased) first and the others after them, each group in
  the order it was found. So a result with the query in its title stands before every result
  without, there are at most fifteen, and every result of type post stems from a post that
  is not unlisted, whatever the gateway returns for the body of an unlisted one.
\<close>

theorem keyword_search_ranking:
  "let res = fst (search ctx e net query reqs);
       found = results (search_collect ctx e net query reqs)
   in res = (if trim query = [] then []
             else take 15 (filter (in_title query) found @
                           filter (\<lambda>r. \<not> in_title query r) found))
      \<and> (\<forall>i j. i < length res \<and> j < length res \<and> in_title query (res ! i) \<and>
                 \<not> in_title query (res ! j) \<longrightarrow> i < j)
      \<and> length res \<le> 15
      \<and> (\<forall>r \<in> set res. listed_source ctx query r)"
proof -
  define res where "res = fst (search ctx e net query reqs)"
  define found where "found = results (search_collect ctx e net query reqs)"
  have eq: "res = (if trim query = [] then []
                else take 15 (filter (in_title query) found @
                              filter (\<lambda>r. \<not> in_title query r) found))"
    by (simp add: res_def found_def search_def Let_def sort_results_partition)
  have order: "\<forall>i j. i < length res \<and> j < length res \<and> in_title query (res ! i) \<and>
               \<not> in_title query (res ! j) \<longrightarrow> i < j"
  proof (cases "trim query = []")
    case True
    with eq show ?thesis by simp
  next
    case False
    with eq have "res = take 15 (filter (in_title query) found @
                              filter (\<lambda>r. \<not> in_title query r) found)" by simp
    from partition_order [OF this] show ?thesis by blast
  qed
  have len: "length res \<le> 15" using eq by (simp del: take_append)
  have listed: "\<forall>r \<in> set res. listed_source ctx query r"
  proof
    fix r assume "r \<in> set res"
    then have "r \<in> set found"
      using eq by (auto split: if_splits dest: in_set_takeD)
    then show "listed_source ctx query r"
      unfolding found_def by (rule search_collect_listed)
  qed
  from eq order len listed show ?thesis
    unfolding Let_def res_def [symmetric] found_def [symmetric] by blast
qed

text \<open>The theorem at the scenario, searching \<open>cach\<close>: the post with the term in its title
  comes first, the post with the term in its body second, the unlisted post is absent and
  its body is not even requested.\<close>

theorem keyword_search_ranking_witness:
  "search blog_ctx default_env blog_net ''cach'' [] =
     ([\<lparr>r_id = ''p1'', r_type = Post, r_slug = ''intro-to-caching'', r_title = ''Intro to Caching'',
        r_description = Some ''About caches'', r_snippet = ''About caches'', r_anchor = None\<rparr>,
       \<lparr>r_id = ''p2'', r_type = Post, r_slug = ''replication'', r_title = ''Deep Dive: Replication'',
        r_description = Some ''Replicas'', r_snippet = ''Notes Replicas keep a cache warm'',
        r_anchor = Some ''notes''\<rparr>],
      [''https://gateway.pinata.cloud/ipfs/c2''])
   \<and> listed_source blog_ctx ''cach''
        \<lparr>r_id = ''p2'', r_type = Post, r_slug = ''replication'', r_title = ''Deep Dive: Replication'',
         r_description = Some ''Replicas'', r_snippet = ''Notes Replicas keep a cache warm'',
         r_anchor = Some ''notes''\<rparr>
   \<and> length (fst (search blog_ctx default_env blog_net ''cach'' [])) \<le> 15"
proof -
  let ?r1 = "\<lparr>r_id = ''p1'', r_type = Post, r_slug = ''intro-to-caching'', r_title = ''Intro to Caching'',
        r_description = Some ''About caches'', r_snippet = ''About caches'', r_anchor = None\<rparr>"
  let ?r2 = "\<lparr>r_id = ''p2'', r_type = Post, r_slug = ''replication'', r_title = ''Deep Dive: Replication'',
        r_description = Some ''Replicas'', r_snippet = ''Notes Replicas keep a cache warm'',
        r_anchor = Some ''notes''\<rparr>"
  have ev: "search blog_ctx default_env blog_net ''cach'' [] =
      ([?r1, ?r2], [''https://gateway.pinata.cloud/ipfs/c2''])"
    by code_simp
  have mem: "?r2 \<in> set (fst (search blog_ctx default_env blog_net ''cach'' []))"
    by (simp only: ev fst_conv) simp
  have all: "\<forall>r \<in> set (fst (search blog_ctx default_env blog_net ''cach'' [])).
               listed_source blog_ctx ''cach'' r"
    and len: "length (fst (search blog_ctx default_env blog_net ''cach'' [])) \<le> 15"
    using keyword_search_ranking [of blog_ctx default_env blog_net "''cach''" "[]"]
    unfolding Let_def by blast+
  from all mem have "listed_source blog_ctx ''cach'' ?r2" by blast
  with ev len show ?thesis by blast
qed

section \<open>Properties of semantic search and of the embedding provider\<close>

text \<open>
  Claim C6. Without the credential of the embedding provider (the variable is not set, or is
  empty), \<open>semanticSearch\<close> returns the empty list for every query, makes no request and
  throws nothing, and \<open>isSemanticSearchAvailable\<close> is false.
\<close>

theorem semantic_search_without_key:
  assumes "\<not> truthy (HUGGINGFACE_API_KEY e)"
  shows "semanticSearch db index e net query reqs = (Inr [], reqs)
       \<and> \<not> isSemanticSearchAvailable e"
  using assms by (simp add: semanticSearch_def isSemanticSearchAvailable_def)

text \<open>The theorem at the default environment, where the variable is not set.\<close>

theorem semantic_search_without_key_witness:
  "\<not> truthy (HUGGINGFACE_API_KEY default_env)
   \<and> semanticSearch empty_store empty_index default_env net_always_500 ''caching'' [] = (Inr [], [])
   \<and> \<not> isSemanticSearchAvailable default_env"
proof -
  have h: "\<not> truthy (HUGGINGFACE_API_KEY default_env)"
    by (simp add: default_env_def truthy_def)
  from semantic_search_without_key [OF h] h show ?thesis by blast
qed

lemma float64_array_Some:
  "float64_array v = Some vector \<longleftrightarrow> v = JArr (map JNum vector)"
proof
  assume a: "float64_array v = Some vector"
  then obtain xs where v: "v = JArr xs"
    by (cases v) (simp_all add: float64_array_def)
  with a have all: "list_all (\<lambda>x. case x of JNum n \<Rightarrow> True | _ \<Rightarrow> False) xs"
    and vec: "vector = map (\<lambda>x. case x of JNum n \<Rightarrow> n | _ \<Rightarrow> 0) xs"
    by (auto simp: float64_array_def split: if_splits)
  have "map JNum (map (\<lambda>x. case x of JNum n \<Rightarrow> n | _ \<Rightarrow> 0) xs) = xs"
    using all by (induction xs) (auto split: json.splits)
  with v vec show "v = JArr (map JNum vector)" by simp
next
  assume "v = JArr (map JNum vector)"
  then show "float64_array v = Some vector"
    by (simp add: float64_array_def list_all_iff comp_def)
qed

lemma handler_Inr:
  "fst (generateEmbedding_handler e net text' reqs) = Inr value \<longleftrightarrow>
     truthy (HUGGINGFACE_API_KEY e) \<and> isArray value \<and> elements value \<noteq> [] \<and>
     (\<exists>response. net (length reqs) HUGGINGFACE_API_URL (slice text' 0 2000) = Responds response
          \<and> ok response \<and> body_json response = Inr value)"
  by (auto simp: generateEmbedding_handler_def fetch_def Let_def
        split: fetch_outcome.splits sum.splits if_splits)

lemma generateEmbedding_Inr:
  "fst (generateEmbedding e net text' reqs) = Inr vector \<longleftrightarrow> acceptable e net text' reqs vector"
proof -
  obtain r q where h: "generateEmbedding_handler e net text' reqs = (r, q)"
    by (cases "generateEmbedding_handler e net text' reqs")
  show ?thesis
  proof (cases r)
    case (Inl error)
    have "\<not> acceptable e net text' reqs vector"
    proof
      assume "acceptable e net text' reqs vector"
      then have "fst (generateEmbedding_handler e net text' reqs) = Inr (JArr (map JNum vector))"
        unfolding handler_Inr by (auto simp: acceptable_def isArray_def elements_def)
      with h Inl show False by simp
    qed
    with h Inl show ?thesis by (simp add: generateEmbedding_def)
  next
    case (Inr returned)
    with h have hv: "fst (generateEmbedding_handler e net text' reqs) = Inr returned" by simp
    have "fst (generateEmbedding e net text' reqs) = Inr vector \<longleftrightarrow> float64_array returned = Some vector"
      using h Inr by (simp add: generateEmbedding_def split: option.splits)
    also have "\<dots> \<longleftrightarrow> returned = JArr (map JNum vector)" by (rule float64_array_Some)
    also have "\<dots> \<longleftrightarrow> acceptable e net text' reqs vector"
      using hv [unfolded handler_Inr]
      by (auto simp: acceptable_def isArray_def elements_def)
    finally show ?thesis .
  qed
qed

lemma query_embedding_nonempty: "query_embedding responseData \<noteq> Inr (Some [])"
  by (auto simp: query_embedding_def Let_def split: sum.splits if_splits)

text \<open>\<open>semanticSearch\<close> searches the vector index with the query embedding only, which is never
  empty: what the index does with the empty vector has no part in the result.\<close>

lemma semanticSearch_index_cong:
  assumes "\<forall>v. v \<noteq> [] \<longrightarrow> vector_posts index' v = vector_posts index v
                         \<and> vector_pages index' v = vector_pages index v"
  shows "semanticSearch db index' e net query reqs = semanticSearch db index e net query reqs"
proof -
  have "vector_posts index' q = vector_posts index q \<and> vector_pages index' q = vector_pages index q"
    if "query_embedding responseData = Inr (Some q)" for responseData q
  proof -
    from that have "q \<noteq> []" using query_embedding_nonempty [of responseData] by auto
    with assms show ?thesis by blast
  qed
  then show ?thesis
    unfolding semanticSearch_def
    by (auto split: prod.splits fetch_outcome.splits sum.splits option.splits)
qed

lemma short_vector_result:
  "generateEmbedding keyed_env net_short_vector ''hello'' [] = (Inr [1], [HUGGINGFACE_API_URL])"
  by (simp add: generateEmbedding_def generateEmbedding_handler_def keyed_env_def truthy_def
        net_short_vector_def fetch_def ok_def isArray_def elements_def float64_array_def
        Let_def)

section \<open>Properties of the embedding backfill\<close>

lemma set_embeddings_ids: "map doc_id (set_embeddings f t) = map doc_id t"
  by (induction t) (auto simp: set_embeddings_def split: option.splits)

lemma set_embeddings_compose:
  "set_embeddings g (set_embeddings f t) =
     set_embeddings (\<lambda>i. case g i of Some w \<Rightarrow> Some w | None \<Rightarrow> f i) t"
  by (induction t) (auto simp: set_embeddings_def split: option.splits)

lemma patch_embedding_set:
  "i \<in> doc_id ` set t \<Longrightarrow> patch_embedding t i v = Inr (set_embeddings [i \<mapsto> v] t)"
  by (auto simp: patch_embedding_def set_embeddings_def)

lemma failed_message_inj:
  "embedding_failed_message kind d = embedding_failed_message kind d' \<longleftrightarrow> doc_id d = doc_id d'"
  by (simp add: embedding_failed_message_def)

lemma failed_message_distinct:
  "embedding_failed_message kind d \<noteq> fetch_failed_message kind' d'"
  by (simp add: embedding_failed_message_def fetch_failed_message_def)

lemma tbl_save:
  "saveEmbedding kind db0 i v = Inr db1 \<Longrightarrow>
     patch_embedding (table_of kind db0) i v = Inr (table_of kind db1)"
  by (cases kind) (auto simp: saveEmbedding_def table_of_def split: sum.splits)

lemma content_for_embedding_state:
  assumes "content_for_embedding kind e net d st = (content, st1)"
  shows "b_store st1 = b_store st" "processed st1 = processed st"
        "msgs st \<subseteq> msgs st1" "msgs st1 \<subseteq> msgs st \<union> {fetch_failed_message kind d}"
  using assms
  by (auto simp: content_for_embedding_def msgs_def split: prod.splits sum.splits)

lemma embed_document_step:
  fixes kind e net d st
  assumes "doc_id d \<in> doc_id ` set (tbl kind st)"
  defines "st' \<equiv> embed_document kind e net d st"
  shows "(\<exists>v. tbl kind st' = set_embeddings [doc_id d \<mapsto> v] (tbl kind st)
            \<and> processed st' = processed st + 1
            \<and> msgs st \<subseteq> msgs st'
            \<and> msgs st' \<subseteq> msgs st \<union> {fetch_failed_message kind d})
       \<or> (tbl kind st' = tbl kind st
            \<and> processed st' = processed st
            \<and> embedding_failed_message kind d \<in> msgs st'
            \<and> msgs st \<subseteq> msgs st'
            \<and> msgs st' \<subseteq> msgs st \<union> {fetch_failed_message kind d, embedding_failed_message kind d})"
proof -
  obtain content st1 where c: "content_for_embedding kind e net d st = (content, st1)"
    by (cases "content_for_embedding kind e net d st")
  note s1 = content_for_embedding_state [OF c]
  define textToEmbed where "textToEmbed = (if content \<noteq> [] then prepareTextForEmbedding (title d) content
                         else title d)"
  obtain r reqs2 where g: "generateEmbedding e net textToEmbed (b_requests st1) = (r, reqs2)"
    by (cases "generateEmbedding e net textToEmbed (b_requests st1)")
  have unfold: "st' = (case r of
           Inl error \<Rightarrow>
             st1\<lparr>b_requests := reqs2,
                 console := console st1 @ [(embedding_failed_message kind d, error)]\<rparr>
         | Inr vector \<Rightarrow>
             (case saveEmbedding kind (b_store st1) (doc_id d) vector of
                Inl error \<Rightarrow>
                  st1\<lparr>b_requests := reqs2,
                      console := console st1 @ [(embedding_failed_message kind d, error)]\<rparr>
              | Inr db' \<Rightarrow>
                  st1\<lparr>b_store := db', b_requests := reqs2, processed := processed st1 + 1\<rparr>))"
    unfolding st'_def embed_document_def Let_def c prod.case textToEmbed_def [symmetric] g
    by (simp split: sum.splits)
  have failure: ?thesis
    if "st' = st1\<lparr>b_requests := reqs2,
                 console := console st1 @ [(embedding_failed_message kind d, error)]\<rparr>" for error
  proof -
    have "tbl kind st' = tbl kind st" "processed st' = processed st"
      using that s1(1,2) by (simp_all add: tbl_def)
    moreover have "msgs st' = msgs st1 \<union> {embedding_failed_message kind d}"
      using that by (auto simp: msgs_def)
    ultimately show ?thesis using s1(3,4) by auto
  qed
  show ?thesis
  proof (cases r)
    case (Inl error)
    with unfold show ?thesis by (intro failure [of error]) simp
  next
    case (Inr vector)
    show ?thesis
    proof (cases "saveEmbedding kind (b_store st1) (doc_id d) vector")
      case (Inl error)
      with unfold Inr show ?thesis by (intro failure [of error]) simp
    next
      case save: (Inr db')
      with unfold Inr have st': "st' = st1\<lparr>b_store := db', b_requests := reqs2,
            processed := processed st1 + 1\<rparr>" by simp
      from tbl_save [OF save] assms(1) s1(1)
      have "table_of kind db' = set_embeddings [doc_id d \<mapsto> vector] (tbl kind st)"
        by (simp add: tbl_def patch_embedding_set)
      moreover have "msgs st' = msgs st1" using st' by (simp add: msgs_def)
      ultimately show ?thesis using st' s1 by (auto simp: tbl_def)
    qed
  qed
qed

lemma embed_documents_invariant:
  assumes "distinct (map doc_id docs)"
      and "doc_id ` set docs \<subseteq> doc_id ` set (tbl kind st)"
      and "\<forall>d\<in>set docs. embedding_failed_message kind d \<notin> msgs st"
  shows "\<exists>f. dom f \<subseteq> doc_id ` set docs
           \<and> tbl kind (embed_documents kind e net docs st) = set_embeddings f (tbl kind st)
           \<and> processed (embed_documents kind e net docs st) =
               processed st + length (filter (\<lambda>d. doc_id d \<in> dom f) docs)
           \<and> (\<forall>d\<in>set docs. embedding_failed_message kind d \<in> msgs (embed_documents kind e net docs st)
                  \<longleftrightarrow> doc_id d \<notin> dom f)
           \<and> msgs st \<subseteq> msgs (embed_documents kind e net docs st)
           \<and> (\<forall>m\<in>msgs (embed_documents kind e net docs st).
                  m \<in> msgs st \<or>
                  (\<exists>d\<in>set docs. m = embedding_failed_message kind d \<or> m = fetch_failed_message kind d))"
  using assms
proof (induction docs arbitrary: st)
  case Nil
  have "set_embeddings Map.empty (tbl kind st) = tbl kind st"
    by (simp add: set_embeddings_def)
  then show ?case by (intro exI [of _ Map.empty]) simp
next
  case (Cons d docs)
  let ?st1 = "embed_document kind e net d st"
  let ?st' = "embed_documents kind e net docs ?st1"
  let ?efm = "embedding_failed_message kind"
  let ?ffm = "fetch_failed_message kind"
  have d_in: "doc_id d \<in> doc_id ` set (tbl kind st)" using Cons.prems(2) by simp
  have d_new: "doc_id d \<notin> doc_id ` set docs" and dist: "distinct (map doc_id docs)"
    using Cons.prems(1) by auto
  have fresh: "doc_id x \<noteq> doc_id d" if "x \<in> set docs" for x
    using that d_new by (metis image_eqI)
  have step: "(\<exists>v. tbl kind ?st1 = set_embeddings [doc_id d \<mapsto> v] (tbl kind st)
            \<and> processed ?st1 = processed st + 1
            \<and> msgs st \<subseteq> msgs ?st1
            \<and> msgs ?st1 \<subseteq> msgs st \<union> {?ffm d})
       \<or> (tbl kind ?st1 = tbl kind st
            \<and> processed ?st1 = processed st
            \<and> ?efm d \<in> msgs ?st1
            \<and> msgs st \<subseteq> msgs ?st1
            \<and> msgs ?st1 \<subseteq> msgs st \<union> {?ffm d, ?efm d})"
    by (rule embed_document_step [OF d_in])
  then have sub1: "msgs st \<subseteq> msgs ?st1" and sup1: "msgs ?st1 \<subseteq> msgs st \<union> {?ffm d, ?efm d}"
    and ids1: "map doc_id (tbl kind ?st1) = map doc_id (tbl kind st)"
    by (auto simp: set_embeddings_ids)
  have pre2: "doc_id ` set docs \<subseteq> doc_id ` set (tbl kind ?st1)"
  proof -
    have "doc_id ` set (tbl kind ?st1) = set (map doc_id (tbl kind ?st1))" by simp
    also have "\<dots> = doc_id ` set (tbl kind st)" by (simp only: ids1) simp
    finally show ?thesis using Cons.prems(2) by auto
  qed
  have pre3: "\<forall>x\<in>set docs. ?efm x \<notin> msgs ?st1"
  proof
    fix x assume x: "x \<in> set docs"
    then have "doc_id x \<noteq> doc_id d" by (rule fresh)
    then have "?efm x \<noteq> ?efm d" by (simp add: failed_message_inj)
    moreover have "?efm x \<noteq> ?ffm d" by (rule failed_message_distinct)
    moreover have "?efm x \<notin> msgs st" using Cons.prems(3) x by simp
    ultimately show "?efm x \<notin> msgs ?st1" using sup1 by auto
  qed
  from Cons.IH [OF dist pre2 pre3] obtain f where
    f_dom: "dom f \<subseteq> doc_id ` set docs"
    and f_tbl: "tbl kind ?st' = set_embeddings f (tbl kind ?st1)"
    and f_proc: "processed ?st' = processed ?st1 + length (filter (\<lambda>x. doc_id x \<in> dom f) docs)"
    and f_msgs: "\<forall>x\<in>set docs. ?efm x \<in> msgs ?st' \<longleftrightarrow> doc_id x \<notin> dom f"
    and f_sub: "msgs ?st1 \<subseteq> msgs ?st'"
    and f_new: "\<forall>m\<in>msgs ?st'. m \<in> msgs ?st1 \<or> (\<exists>x\<in>set docs. m = ?efm x \<or> m = ?ffm x)"
    by blast
  have d_f: "doc_id d \<notin> dom f" using f_dom d_new by auto
  have ef_d_rest: "?efm d \<noteq> ?efm x \<and> ?efm d \<noteq> ?ffm x" if "x \<in> set docs" for x
  proof -
    from fresh [OF that] have "doc_id d \<noteq> doc_id x" by simp
    then show ?thesis by (simp add: failed_message_inj failed_message_distinct)
  qed
  have sub: "msgs st \<subseteq> msgs ?st'" using sub1 f_sub by auto
  have new: "\<forall>m\<in>msgs ?st'. m \<in> msgs st \<or>
               (\<exists>x\<in>set (d # docs). m = ?efm x \<or> m = ?ffm x)"
    using f_new sup1 by auto
  from step have goal: "\<exists>f. dom f \<subseteq> doc_id ` set (d # docs)
           \<and> tbl kind ?st' = set_embeddings f (tbl kind st)
           \<and> processed ?st' = processed st + length (filter (\<lambda>x. doc_id x \<in> dom f) (d # docs))
           \<and> (\<forall>x\<in>set (d # docs). ?efm x \<in> msgs ?st' \<longleftrightarrow> doc_id x \<notin> dom f)
           \<and> msgs st \<subseteq> msgs ?st'
           \<and> (\<forall>m\<in>msgs ?st'. m \<in> msgs st \<or>
                  (\<exists>x\<in>set (d # docs). m = ?efm x \<or> m = ?ffm x))"
  proof
    assume "\<exists>v. tbl kind ?st1 = set_embeddings [doc_id d \<mapsto> v] (tbl kind st)
            \<and> processed ?st1 = processed st + 1
            \<and> msgs st \<subseteq> msgs ?st1
            \<and> msgs ?st1 \<subseteq> msgs st \<union> {?ffm d}"
    then obtain v where
      t1: "tbl kind ?st1 = set_embeddings [doc_id d \<mapsto> v] (tbl kind st)"
      and p1: "processed ?st1 = processed st + 1"
      and m1: "msgs ?st1 \<subseteq> msgs st \<union> {?ffm d}"
      by blast
    let ?f = "f(doc_id d \<mapsto> v)"
    have "(\<lambda>i. case f i of Some w \<Rightarrow> Some w | None \<Rightarrow> [doc_id d \<mapsto> v] i) = ?f"
      using d_f by (auto simp: fun_eq_iff split: option.splits)
    then have tbl: "tbl kind ?st' = set_embeddings ?f (tbl kind st)"
      by (simp add: f_tbl t1 set_embeddings_compose)
    have "filter (\<lambda>x. doc_id x \<in> dom ?f) docs = filter (\<lambda>x. doc_id x \<in> dom f) docs"
      by (rule filter_cong) (use fresh in auto)
    then have proc: "processed ?st' = processed st + length (filter (\<lambda>x. doc_id x \<in> dom ?f) (d # docs))"
      using f_proc p1 by simp
    have "?efm d \<notin> msgs st" using Cons.prems(3) by simp
    then have "?efm d \<notin> msgs ?st1" using m1 failed_message_distinct [of kind d kind d] by auto
    then have nd: "?efm d \<notin> msgs ?st'" using f_new ef_d_rest by blast
    have msg: "\<forall>x\<in>set (d # docs). ?efm x \<in> msgs ?st' \<longleftrightarrow> doc_id x \<notin> dom ?f"
      using nd f_msgs fresh by auto
    have dom: "dom ?f \<subseteq> doc_id ` set (d # docs)" using f_dom by auto
    from dom tbl proc msg sub new show ?thesis by blast
  next
    assume "tbl kind ?st1 = tbl kind st
            \<and> processed ?st1 = processed st
            \<and> ?efm d \<in> msgs ?st1
            \<and> msgs st \<subseteq> msgs ?st1
            \<and> msgs ?st1 \<subseteq> msgs st \<union> {?ffm d, ?efm d}"
    then have t1: "tbl kind ?st1 = tbl kind st" and p1: "processed ?st1 = processed st"
      and e1: "?efm d \<in> msgs ?st1" by blast+
    have tbl: "tbl kind ?st' = set_embeddings f (tbl kind st)" using f_tbl t1 by simp
    have proc: "processed ?st' = processed st + length (filter (\<lambda>x. doc_id x \<in> dom f) (d # docs))"
      using f_proc p1 d_f by simp
    have "?efm d \<in> msgs ?st'" using e1 f_sub by auto
    then have msg: "\<forall>x\<in>set (d # docs). ?efm x \<in> msgs ?st' \<longleftrightarrow> doc_id x \<notin> dom f"
      using f_msgs d_f by auto
    have dom: "dom f \<subseteq> doc_id ` set (d # docs)" using f_dom by auto
    from dom tbl proc msg sub new show ?thesis by blast
  qed
  then show ?case by simp
qed

lemma take_filter_mem:
  "x \<in> set (take n xs) \<Longrightarrow> P x \<Longrightarrow> x \<in> set (take n (filter P xs))"
proof (induction xs arbitrary: n)
  case Nil
  then show ?case by simp
next
  case (Cons y ys)
  show ?case
  proof (cases n)
    case 0
    with Cons.prems show ?thesis by simp
  next
    case (Suc m)
    show ?thesis
    proof (cases "x = y")
      case True
      with Cons.prems Suc show ?thesis by simp
    next
      case False
      with Cons.prems Suc have "x \<in> set (take m ys)" by simp
      from Cons.IH [OF this Cons.prems(2)] have ih: "x \<in> set (take m (filter P ys))" .
      show ?thesis
      proof (cases "P y")
        case True
        with ih Suc show ?thesis by simp
      next
        case False
        have "set (take m (filter P ys)) \<subseteq> set (take (Suc m) (filter P ys))"
          by (rule set_take_subset_set_take) simp
        with ih False Suc show ?thesis by auto
      qed
    qed
  qed
qed

lemma withoutEmbeddings_filter:
  "withoutEmbeddings t n = take n (filter (\<lambda>x. published x \<and> lacks_embedding x) t)"
  by (simp add: withoutEmbeddings_def)

lemma filter_set_embeddings:
  "filter (\<lambda>x. published x \<and> lacks_embedding x) (set_embeddings f t) =
     filter (\<lambda>x. f (doc_id x) = None)
       (filter (\<lambda>x. published x \<and> lacks_embedding x) t)"
  by (induction t) (auto simp: set_embeddings_def lacks_embedding_def split: option.splits)

lemma find_by_id:
  "distinct (map doc_id t) \<Longrightarrow> d \<in> set t \<Longrightarrow> find (\<lambda>x. doc_id x = doc_id d) t = Some d"
  by (induction t) (auto simp: image_iff)

lemma find_by_id_map:
  assumes "\<And>x. doc_id (u x) = doc_id x"
  shows "distinct (map doc_id t) \<Longrightarrow> d \<in> set t \<Longrightarrow>
           find (\<lambda>x. doc_id x = doc_id d) (map u t) = Some (u d)"
  by (induction t) (auto simp: assms image_iff)

lemma db_get_set_embeddings:
  assumes "distinct (map doc_id t)" "d \<in> set t"
  shows "db_get (set_embeddings f t) (doc_id d) =
           Some (case f (doc_id d) of None \<Rightarrow> d | Some v \<Rightarrow> d\<lparr>embedding := Some v\<rparr>)"
  unfolding db_get_def set_embeddings_def
  by (rule find_by_id_map [OF _ assms]) (simp split: option.splits)

text \<open>
  The loop of the backfill, for either kind of document, on a table whose rows have distinct
  ids. The batch has at most ten documents, each published, not unlisted and without
  embedding. Every document of the batch is handled: it is counted in \<open>processed\<close> or its
  failure is written to the console, whatever happened to the documents before it. A
  document of the batch that did not fail has its row with an embedding afterwards. A
  document that failed has its row unchanged, still without embedding, and is in the batch
  the next run selects.
\<close>

lemma generateEmbeddings_isolates_failures:
  assumes "distinct (map doc_id (table_of kind db0))"
  shows "let batch = withoutEmbeddings (table_of kind db0) 10;
             final = generateEmbeddings kind e net db0 reqs [];
             failed = failed_documents kind batch final;
             table' = table_of kind (b_store final)
         in length batch \<le> 10
            \<and> (\<forall>d\<in>set batch. published d \<and> \<not> flag (unlisted d) \<and> embedding d = None)
            \<and> processed final + length failed = length batch
            \<and> (\<forall>d\<in>set batch. d \<notin> set failed \<longrightarrow>
                  (\<exists>v. db_get table' (doc_id d) = Some (d\<lparr>embedding := Some v\<rparr>)))
            \<and> (\<forall>d\<in>set failed.
                  db_get table' (doc_id d) = Some d \<and> embedding d = None
                  \<and> d \<in> set (withoutEmbeddings table' 10))"
proof -
  define t where "t = table_of kind db0"
  define batch where "batch = withoutEmbeddings t 10"
  define st0 where "st0 = \<lparr>b_store = db0, b_requests = reqs, console = [], processed = 0\<rparr>"
  define final where "final = embed_documents kind e net batch st0"
  define failed where "failed = failed_documents kind batch final"
  define table' where "table' = table_of kind (b_store final)"
  have dist: "distinct (map doc_id t)" using assms by (simp add: t_def)
  have batch_sub: "set batch \<subseteq> set t"
    by (auto simp: batch_def withoutEmbeddings_def dest: in_set_takeD)
  have batch_lacks: "embedding d = None" if "d \<in> set batch" for d
    using that by (auto simp: batch_def withoutEmbeddings_def lacks_embedding_def dest: in_set_takeD)
  have batch_dist: "distinct (map doc_id batch)"
    unfolding batch_def withoutEmbeddings_def
    by (simp add: take_map [symmetric] distinct_take distinct_map_filter dist)
  have len: "length batch \<le> 10" by (simp add: batch_def withoutEmbeddings_def)
  have members: "\<forall>d\<in>set batch. published d \<and> \<not> flag (unlisted d) \<and> embedding d = None"
    by (auto simp: batch_def withoutEmbeddings_def lacks_embedding_def dest: in_set_takeD)
  have t0: "tbl kind st0 = t" by (simp add: tbl_def st0_def t_def)
  have "doc_id ` set batch \<subseteq> doc_id ` set (tbl kind st0)" using batch_sub t0 by auto
  moreover have "\<forall>d\<in>set batch. embedding_failed_message kind d \<notin> msgs st0"
    by (simp add: msgs_def st0_def)
  ultimately obtain f where
    f_dom: "dom f \<subseteq> doc_id ` set batch"
    and f_tbl: "tbl kind final = set_embeddings f (tbl kind st0)"
    and f_proc: "processed final = processed st0 + length (filter (\<lambda>d. doc_id d \<in> dom f) batch)"
    and f_msgs: "\<forall>d\<in>set batch. embedding_failed_message kind d \<in> msgs final \<longleftrightarrow> doc_id d \<notin> dom f"
    using embed_documents_invariant [OF batch_dist, of kind st0 e net]
    unfolding final_def by blast
  have table': "table' = set_embeddings f t" using f_tbl t0 by (simp add: table'_def tbl_def)
  have failed: "failed = filter (\<lambda>d. doc_id d \<notin> dom f) batch"
    unfolding failed_def failed_documents_def
    by (rule filter_cong) (use f_msgs in \<open>auto simp: msgs_def\<close>)
  have count: "processed final + length failed = length batch"
    using f_proc sum_length_filter_compl [of "\<lambda>d. doc_id d \<in> dom f" batch]
    by (simp add: failed st0_def)
  have embedded: "\<exists>v. db_get table' (doc_id d) = Some (d\<lparr>embedding := Some v\<rparr>)"
    if "d \<in> set batch" "d \<notin> set failed" for d
  proof -
    from that have "doc_id d \<in> dom f" by (simp add: failed)
    then obtain v where "f (doc_id d) = Some v" by blast
    moreover have "d \<in> set t" using that(1) batch_sub by auto
    ultimately have "db_get table' (doc_id d) = Some (d\<lparr>embedding := Some v\<rparr>)"
      using db_get_set_embeddings [OF dist, of d f] by (simp add: table')
    then show ?thesis by blast
  qed
  have again: "db_get table' (doc_id d) = Some d \<and> embedding d = None
               \<and> d \<in> set (withoutEmbeddings table' 10)"
    if "d \<in> set failed" for d
  proof -
    from that have d: "d \<in> set batch" and none: "f (doc_id d) = None"
      by (auto simp: failed)
    have "d \<in> set t" using d batch_sub by auto
    then have get: "db_get table' (doc_id d) = Some d"
      using db_get_set_embeddings [OF dist, of d f] none by (simp add: table')
    have "d \<in> set (take 10 (filter (\<lambda>x. published x \<and> lacks_embedding x) t))"
      using d by (simp add: batch_def withoutEmbeddings_filter)
    then have "d \<in> set (take 10 (filter (\<lambda>x. f (doc_id x) = None)
                 (filter (\<lambda>x. published x \<and> lacks_embedding x) t)))"
      using none by (rule take_filter_mem)
    then have "d \<in> set (withoutEmbeddings table' 10)"
      by (simp only: withoutEmbeddings_filter table' filter_set_embeddings)
    with get batch_lacks [OF d] show ?thesis by simp
  qed
  have "generateEmbeddings kind e net db0 reqs [] = final"
    by (simp add: generateEmbeddings_def final_def batch_def st0_def t_def)
  with len members count embedded again show ?thesis
    unfolding Let_def
    by (simp add: batch_def [symmetric] t_def [symmetric] failed_def [symmetric]
          table'_def [symmetric])
qed

text \<open>
  Claim C8, for \<open>generatePostEmbeddings\<close> and for \<open>generatePageEmbeddings\<close>, each on its table
  and with its query, when the ids of the rows of a table are distinct. The batch is what
  \<open>getPostsWithoutEmbeddings\<close> (\<open>getPagesWithoutEmbeddings\<close>) gives for the limit 10: at most
  ten documents, each published, not unlisted and without embedding. Every document of the
  batch is handled, counted in \<open>processed\<close> or with its failure on the console, so that no
  failure stops the loop. A document of the batch that did not fail has its row with an
  embedding afterwards. A document that failed has its row unchanged, still without
  embedding, and the same query selects it again after the run.
\<close>

theorem backfill_isolates_failures:
  assumes "distinct (map doc_id (posts db0))" and "distinct (map doc_id (pages db0))"
  shows "(let batch = getPostsWithoutEmbeddings db0 10;
              final = generatePostEmbeddings e net db0 reqs [];
              failed = failed_documents Post batch final;
              table' = posts (b_store final)
          in length batch \<le> 10
             \<and> (\<forall>d\<in>set batch. published d \<and> \<not> flag (unlisted d) \<and> embedding d = None)
             \<and> processed final + length failed = length batch
             \<and> (\<forall>d\<in>set batch. d \<notin> set failed \<longrightarrow>
                   (\<exists>v. db_get table' (doc_id d) = Some (d\<lparr>embedding := Some v\<rparr>)))
             \<and> (\<forall>d\<in>set failed.
                   db_get table' (doc_id d) = Some d \<and> embedding d = None
                   \<and> d \<in> set (getPostsWithoutEmbeddings (b_store final) 10)))
       \<and> (let batch = getPagesWithoutEmbeddings db0 10;
               final = generatePageEmbeddings e net db0 reqs [];
               failed = failed_documents Page batch final;
               table' = pages (b_store final)
           in length batch \<le> 10
              \<and> (\<forall>d\<in>set batch. published d \<and> \<not> flag (unlisted d) \<and> embedding d = None)
              \<and> processed final + length failed = length batch
              \<and> (\<forall>d\<in>set batch. d \<notin> set failed \<longrightarrow>
                    (\<exists>v. db_get table' (doc_id d) = Some (d\<lparr>embedding := Some v\<rparr>)))
              \<and> (\<forall>d\<in>set failed.
                    db_get table' (doc_id d) = Some d \<and> embedding d = None
                    \<and> d \<in> set (getPagesWithoutEmbeddings (b_store final) 10)))"
proof -
  have p: "distinct (map doc_id (table_of Post db0))" using assms(1) by (simp add: table_of_def)
  have q: "distinct (map doc_id (table_of Page db0))" using assms(2) by (simp add: table_of_def)
  have tp: "table_of Post = posts" and tq: "table_of Page = pages"
    by (simp_all add: table_of_def fun_eq_iff)
  show ?thesis
    using generateEmbeddings_isolates_failures [OF p, of e net reqs]
          generateEmbeddings_isolates_failures [OF q, of e net reqs]
    unfolding generatePostEmbeddings_def generatePageEmbeddings_def
      getPostsWithoutEmbeddings_def getPagesWithoutEmbeddings_def tp tq Let_def
    by (rule conjI)
qed

text \<open>
  The theorem at the store with two posts and a page. The provider fails for the first
  post; the second is embedded all the same, and the first is selected again. The page is
  embedded.
\<close>

theorem backfill_isolates_failures_witness:
  "distinct (map doc_id (posts backlog_store)) \<and> distinct (map doc_id (pages backlog_store))
   \<and> generatePostEmbeddings keyed_env flaky_net backlog_store [] [] =
       \<lparr>b_store = \<lparr>posts = [first_post, second_post\<lparr>embedding := Some [1, 2]\<rparr>],
                   pages = [about_page]\<rparr>,
        b_requests = [''https://gateway.pinata.cloud/ipfs/c1'', HUGGINGFACE_API_URL,
                      ''https://gateway.pinata.cloud/ipfs/c2'', HUGGINGFACE_API_URL],
        console =
          [(''Failed to fetch content from IPFS for post a1:'',
            Error ''Failed to fetch content from IPFS: Failed to fetch content from IPFS: 404 Not Found''),
           (''Failed to generate embedding for post a1:'',
            Error ''Hugging Face API error: 503 Service Unavailable - ''),
           (''Failed to fetch content from IPFS for post a2:'',
            Error ''Failed to fetch content from IPFS: Failed to fetch content from IPFS: 404 Not Found'')],
        processed = 1\<rparr>
   \<and> first_post \<in> set (getPostsWithoutEmbeddings
         (b_store (generatePostEmbeddings keyed_env flaky_net backlog_store [] [])) 10)
   \<and> processed (generatePageEmbeddings keyed_env flaky_net backlog_store [] []) = 1
   \<and> db_get (pages (b_store (generatePageEmbeddings keyed_env flaky_net backlog_store [] [])))
         ''b1'' = Some (about_page\<lparr>embedding := Some [1, 2]\<rparr>)"
proof -
  let ?final = "generatePostEmbeddings keyed_env flaky_net backlog_store [] []"
  let ?batch = "getPostsWithoutEmbeddings backlog_store 10"
  let ?pfinal = "generatePageEmbeddings keyed_env flaky_net backlog_store [] []"
  let ?pbatch = "getPagesWithoutEmbeddings backlog_store 10"
  have d: "distinct (map doc_id (posts backlog_store))" by code_simp
  have d': "distinct (map doc_id (pages backlog_store))" by code_simp
  have ev: "?final =
       \<lparr>b_store = \<lparr>posts = [first_post, second_post\<lparr>embedding := Some [1, 2]\<rparr>],
                   pages = [about_page]\<rparr>,
        b_requests = [''https://gateway.pinata.cloud/ipfs/c1'', HUGGINGFACE_API_URL,
                      ''https://gateway.pinata.cloud/ipfs/c2'', HUGGINGFACE_API_URL],
        console =
          [(''Failed to fetch content from IPFS for post a1:'',
            Error ''Failed to fetch content from IPFS: Failed to fetch content from IPFS: 404 Not Found''),
           (''Failed to generate embedding for post a1:'',
            Error ''Hugging Face API error: 503 Service Unavailable - ''),
           (''Failed to fetch content from IPFS for post a2:'',
            Error ''Failed to fetch content from IPFS: Failed to fetch content from IPFS: 404 Not Found'')],
        processed = 1\<rparr>"
    by code_simp
  have failed: "failed_documents Post ?batch ?final = [first_post]" by code_simp
  have pbatch: "?pbatch = [about_page]" by code_simp
  have pfailed: "failed_documents Page [about_page] ?pfinal = []" by code_simp
  note inst = backfill_isolates_failures [OF d d', of keyed_env flaky_net "[]", unfolded Let_def]
  have "\<forall>x\<in>set (failed_documents Post ?batch ?final).
          x \<in> set (getPostsWithoutEmbeddings (b_store ?final) 10)"
    using inst by blast
  then have again: "first_post \<in> set (getPostsWithoutEmbeddings (b_store ?final) 10)"
    by (simp only: failed) simp
  have "processed ?pfinal + length (failed_documents Page ?pbatch ?pfinal) = length ?pbatch"
    using inst by blast
  then have count: "processed ?pfinal = 1" by (simp only: pfailed pbatch) simp
  have "\<forall>x\<in>set ?pbatch. x \<notin> set (failed_documents Page ?pbatch ?pfinal) \<longrightarrow>
          (\<exists>v. db_get (pages (b_store ?pfinal)) (doc_id x) = Some (x\<lparr>embedding := Some v\<rparr>))"
    using inst by blast
  then obtain v where
    v: "db_get (pages (b_store ?pfinal)) (doc_id about_page) = Some (about_page\<lparr>embedding := Some v\<rparr>)"
    by (simp only: pfailed pbatch) auto
  have "db_get (pages (b_store ?pfinal)) ''b1'' = Some (about_page\<lparr>embedding := Some [1, 2]\<rparr>)"
    by code_simp
  with d d' ev again count show ?thesis by blast
qed

section \<open>Validation of the provider's answers\<close>

text \<open>One document of the backfill: the store is as it was, or a vector that
  \<open>generateEmbedding\<close> accepted was saved to the document's row.\<close>

lemma embed_document_persists:
  "b_store (embed_document kind e net doc st) = b_store st
   \<or> (\<exists>textToEmbed reqs' vector. acceptable e net textToEmbed reqs' vector
         \<and> saveEmbedding kind (b_store st) (doc_id doc) vector
             = Inr (b_store (embed_document kind e net doc st)))"
proof -
  obtain content st1 where c: "content_for_embedding kind e net doc st = (content, st1)"
    by (cases "content_for_embedding kind e net doc st")
  have s1: "b_store st1 = b_store st"
    using c by (auto simp: content_for_embedding_def split: prod.splits sum.splits)
  let ?t = "if content \<noteq> [] then prepareTextForEmbedding (title doc) content else title doc"
  obtain r q where g: "generateEmbedding e net ?t (b_requests st1) = (r, q)"
    by (cases "generateEmbedding e net ?t (b_requests st1)")
  show ?thesis
  proof (cases r)
    case (Inl error)
    with c g s1 show ?thesis by (simp add: embed_document_def)
  next
    case (Inr vector)
    with g have "fst (generateEmbedding e net ?t (b_requests st1)) = Inr vector" by simp
    then have acc: "acceptable e net ?t (b_requests st1) vector"
      by (simp only: generateEmbedding_Inr)
    show ?thesis
    proof (cases "saveEmbedding kind (b_store st1) (doc_id doc) vector")
      case (Inl error)
      with c g Inr s1 show ?thesis by (simp add: embed_document_def)
    next
      case (Inr db')
      with c g \<open>r = Inr vector\<close> s1
      have "saveEmbedding kind (b_store st) (doc_id doc) vector
              = Inr (b_store (embed_document kind e net doc st))"
        by (simp add: embed_document_def)
      with acc show ?thesis by blast
    qed
  qed
qed

lemma only_accepted_saved_refl: "only_accepted_saved e net t t"
  by (auto simp: only_accepted_saved_def)

lemma only_accepted_saved_patch:
  assumes "only_accepted_saved e net t0 t" and "acceptable e net textToEmbed reqs' vector"
    and "patch_embedding t i vector = Inr t'"
  shows "only_accepted_saved e net t0 t'"
proof -
  from assms(3)
  have t': "t' = map (\<lambda>d. if doc_id d = i then d\<lparr>embedding := Some vector\<rparr> else d) t"
    by (auto simp: patch_embedding_def split: if_splits)
  show ?thesis
    unfolding only_accepted_saved_def
  proof
    fix d' assume "d' \<in> set t'"
    then obtain x where x: "x \<in> set t"
      and d': "d' = (if doc_id x = i then x\<lparr>embedding := Some vector\<rparr> else x)"
      unfolding t' by auto
    from assms(1) x obtain d where d: "d \<in> set t0"
      and xd: "x = d \<or> (\<exists>textToEmbed reqs' vector.
                    acceptable e net textToEmbed reqs' vector
                    \<and> x = d\<lparr>embedding := Some vector\<rparr>)"
      unfolding only_accepted_saved_def by blast
    show "\<exists>d\<in>set t0. d' = d \<or> (\<exists>textToEmbed reqs' vector.
                    acceptable e net textToEmbed reqs' vector
                    \<and> d' = d\<lparr>embedding := Some vector\<rparr>)"
    proof (cases "doc_id x = i")
      case True
      from xd have "x\<lparr>embedding := Some vector\<rparr> = d\<lparr>embedding := Some vector\<rparr>" by auto
      with True d' assms(2) d show ?thesis by auto
    next
      case False
      with d' xd d show ?thesis by auto
    qed
  qed
qed

lemma embed_document_saved:
  assumes "only_accepted_saved e net t0 (tbl kind st)"
  shows "only_accepted_saved e net t0 (tbl kind (embed_document kind e net doc st))"
proof -
  from embed_document_persists [of kind e net doc st]
  show ?thesis
  proof
    assume "b_store (embed_document kind e net doc st) = b_store st"
    with assms show ?thesis by (simp add: tbl_def)
  next
    assume "\<exists>textToEmbed reqs' vector. acceptable e net textToEmbed reqs' vector
         \<and> saveEmbedding kind (b_store st) (doc_id doc) vector
             = Inr (b_store (embed_document kind e net doc st))"
    then obtain textToEmbed reqs' vector
      where acc: "acceptable e net textToEmbed reqs' vector"
        and sv: "saveEmbedding kind (b_store st) (doc_id doc) vector
                   = Inr (b_store (embed_document kind e net doc st))"
      by blast
    from tbl_save [OF sv]
    have "patch_embedding (tbl kind st) (doc_id doc) vector
            = Inr (tbl kind (embed_document kind e net doc st))"
      by (simp add: tbl_def)
    then show ?thesis by (rule only_accepted_saved_patch [OF assms acc])
  qed
qed

lemma embed_documents_saved:
  "only_accepted_saved e net t0 (tbl kind st) \<Longrightarrow>
   only_accepted_saved e net t0 (tbl kind (embed_documents kind e net docs st))"
  by (induction docs arbitrary: st) (simp_all add: embed_document_saved)

lemma generateEmbeddings_saved:
  "only_accepted_saved e net (table_of kind db0)
     (table_of kind (b_store (generateEmbeddings kind e net db0 reqs console0)))"
  using embed_documents_saved [of e net "table_of kind db0" kind
      "\<lparr>b_store = db0, b_requests = reqs, console = console0, processed = 0\<rparr>"
      "withoutEmbeddings (table_of kind db0) 10"]
  by (simp add: generateEmbeddings_def tbl_def only_accepted_saved_refl)

text \<open>
  Claim C7, as the code has it. \<open>generateEmbedding\<close> returns a vector exactly when the
  provider's answer is a success whose body is a non-empty array of numbers, and the vector
  is that array, of whatever length; on every other answer it throws. What
  \<open>generatePostEmbeddings\<close> and \<open>generatePageEmbeddings\<close> leave in their tables is the rows
  that were there, some with the field \<open>embedding\<close> set to a vector that \<open>generateEmbedding\<close>
  accepted: nothing else of the provider's answers is persisted. \<open>semanticSearch\<close> never goes
  on with an empty query embedding: the part of the provider's answer it takes for the query
  embedding is not the empty array, and its result is the same for two vector indexes that
  differ at the empty vector only.
\<close>

theorem provider_response_validation:
  "(case fst (generateEmbedding e net text' reqs) of
      Inr vector \<Rightarrow> acceptable e net text' reqs vector
    | Inl error \<Rightarrow> \<forall>vector. \<not> acceptable e net text' reqs vector)
   \<and> only_accepted_saved e net (posts db0)
        (posts (b_store (generatePostEmbeddings e net db0 reqs0 console0)))
   \<and> only_accepted_saved e net (pages db0)
        (pages (b_store (generatePageEmbeddings e net db0 reqs0 console0)))
   \<and> query_embedding responseData \<noteq> Inr (Some [])
   \<and> ((\<forall>v. v \<noteq> [] \<longrightarrow> vector_posts index' v = vector_posts index v
                        \<and> vector_pages index' v = vector_pages index v)
        \<longrightarrow> semanticSearch db index' e net query reqs1 = semanticSearch db index e net query reqs1)"
proof -
  have "acceptable e net text' reqs vector"
    if "fst (generateEmbedding e net text' reqs) = Inr vector" for vector
    using that by (simp add: generateEmbedding_Inr)
  moreover have "\<not> acceptable e net text' reqs vector"
    if "fst (generateEmbedding e net text' reqs) = Inl error" for vector error
    using that generateEmbedding_Inr [of e net text' reqs vector] by simp
  ultimately have accepted:
    "case fst (generateEmbedding e net text' reqs) of
       Inr vector \<Rightarrow> acceptable e net text' reqs vector
     | Inl error \<Rightarrow> \<forall>vector. \<not> acceptable e net text' reqs vector"
    by (simp split: sum.splits)
  have saved_posts: "only_accepted_saved e net (posts db0)
        (posts (b_store (generatePostEmbeddings e net db0 reqs0 console0)))"
    using generateEmbeddings_saved [of e net Post db0 reqs0 console0]
    by (simp add: generatePostEmbeddings_def table_of_def)
  have saved_pages: "only_accepted_saved e net (pages db0)
        (pages (b_store (generatePageEmbeddings e net db0 reqs0 console0)))"
    using generateEmbeddings_saved [of e net Page db0 reqs0 console0]
    by (simp add: generatePageEmbeddings_def table_of_def)
  have searched: "(\<forall>v. v \<noteq> [] \<longrightarrow> vector_posts index' v = vector_posts index v
                        \<and> vector_pages index' v = vector_pages index v)
        \<longrightarrow> semanticSearch db index' e net query reqs1 = semanticSearch db index e net query reqs1"
    by (rule impI) (rule semanticSearch_index_cong)
  from accepted saved_posts saved_pages query_embedding_nonempty [of responseData] searched
  show ?thesis by (intro conjI)
qed

text \<open>
  The theorem at a provider that answers with the vector of the single number 1: the answer
  is acceptable, and \<open>semanticSearch\<close> gives the same with a vector index that throws at the
  empty vector as with one that does not. At the store with two posts, the vector saved to
  the second post is one the provider gave.
\<close>

theorem provider_response_validation_witness:
  "acceptable keyed_env net_short_vector ''hello'' [] [1]
   \<and> (\<exists>textToEmbed reqs'. acceptable keyed_env flaky_net textToEmbed reqs' [1, 2])
   \<and> query_embedding (JArr []) \<noteq> Inr (Some [])
   \<and> semanticSearch empty_store index_failing_on_empty keyed_env net_short_vector ''hello'' []
       = semanticSearch empty_store empty_index keyed_env net_short_vector ''hello'' []"
proof -
  note one = provider_response_validation
    [of keyed_env net_short_vector "''hello''" "[]" empty_store "[]" "[]" "JArr []"
        index_failing_on_empty empty_index empty_store "''hello''" "[]"]
  note two = provider_response_validation
    [of keyed_env flaky_net "''hello''" "[]" backlog_store "[]" "[]" "JArr []"
        index_failing_on_empty empty_index empty_store "''hello''" "[]"]
  have a: "acceptable keyed_env net_short_vector ''hello'' [] [1]"
    using one by (simp add: short_vector_result)
  have same: "\<forall>v. v \<noteq> [] \<longrightarrow>
      vector_posts index_failing_on_empty v = vector_posts empty_index v
      \<and> vector_pages index_failing_on_empty v = vector_pages empty_index v"
    by (simp add: index_failing_on_empty_def empty_index_def)
  have s: "semanticSearch empty_store index_failing_on_empty keyed_env net_short_vector ''hello'' []
       = semanticSearch empty_store empty_index keyed_env net_short_vector ''hello'' []"
    using one same by blast
  have final: "posts (b_store (generatePostEmbeddings keyed_env flaky_net backlog_store [] []))
                 = [first_post, second_post\<lparr>embedding := Some [1, 2]\<rparr>]"
    by code_simp
  have before: "posts backlog_store = [first_post, second_post]"
    by (simp add: backlog_store_def)
  have "only_accepted_saved keyed_env flaky_net [first_post, second_post]
          [first_post, second_post\<lparr>embedding := Some [1, 2]\<rparr>]"
    using two by (simp only: final before)
  then obtain d where d: "d = first_post \<or> d = second_post"
    and "second_post\<lparr>embedding := Some [1, 2]\<rparr> = d
         \<or> (\<exists>textToEmbed reqs' vector. acceptable keyed_env flaky_net textToEmbed reqs' vector
               \<and> second_post\<lparr>embedding := Some [1, 2]\<rparr> = d\<lparr>embedding := Some vector\<rparr>)"
    unfolding only_accepted_saved_def by auto
  moreover have "second_post\<lparr>embedding := Some [1, 2]\<rparr> \<noteq> d"
    using d by (auto simp: first_post_def second_post_def)
  ultimately obtain textToEmbed reqs' vector
    where acc: "acceptable keyed_env flaky_net textToEmbed reqs' vector"
      and eq: "second_post\<lparr>embedding := Some [1, 2]\<rparr> = d\<lparr>embedding := Some vector\<rparr>"
    by blast
  from eq have "embedding (second_post\<lparr>embedding := Some [1, 2]\<rparr>)
                  = embedding (d\<lparr>embedding := Some vector\<rparr>)"
    by (rule arg_cong)
  then have "vector = [1, 2]" by simp
  with acc have b: "\<exists>textToEmbed reqs'. acceptable keyed_env flaky_net textToEmbed reqs' [1, 2]"
    by blast
  from one have q: "query_embedding (JArr []) \<noteq> Inr (Some [])" by blast
  from a b q s show ?thesis by blast
qed

text \<open>
  Claim C7 as the specification states it fails: an answer that is a vector of one number is
  accepted, though the vectors of the provider's model have 384 numbers. No length is
  checked anywhere in the code.
\<close>

theorem short_vector_accepted:
  "generateEmbedding keyed_env net_short_vector ''hello'' [] = (Inr [1], [HUGGINGFACE_API_URL])
   \<and> length [1::real] \<noteq> provider_dimension"
  by (simp add: short_vector_result provider_dimension_def)

end
